theory Spec2Isabelle
  imports Complex_Main
begin

section \<open>The voter model of \<^verbatim>\<open>src/code/voter_model.py\<close>\<close>

text \<open>
  The function \<^verbatim>\<open>voter_model\<close> is embedded operation by operation. Python integers
  are \<open>int\<close>; the double values the function handles (\<open>nu\<close>, the value returned by
  \<^verbatim>\<open>rng.random()\<close>, the recorded times \<open>t / J\<close>) are the rationals they denote, so the
  comparison \<open>u \<ge> nu\<close> is exact and \<open>t / J\<close> is the exact quotient. Every raise of the
  source is a value of \<open>error\<close>. The array of the population has the integer dtype of
  the caller's \<open>IC\<close>, and a draw stored into it wraps as numpy's cast does. The arrays of
  counts and the outputs are int64 and hold numbers up to the size of the population,
  which are stored as they are.
\<close>

datatype error = IndexError | ValueError | ZeroDivisionError

subsection \<open>The random generator\<close>

text \<open>
  \<^verbatim>\<open>numpy.random.Generator\<close> is a library object. The model keeps its contract: a
  generator is the sequence of raw words it will produce, every draw consumes one word,
  \<^verbatim>\<open>integers(high)\<close> returns a value of \<open>[0, high)\<close> and raises ValueError for
  \<open>high \<le> 0\<close>, and \<^verbatim>\<open>random()\<close> returns a multiple of \<open>2^-53\<close> in \<open>[0, 1)\<close>.
\<close>

type_synonym rng = "nat \<Rightarrow> nat"

definition rng_word :: "rng \<Rightarrow> nat" where
  "rng_word g = g 0"

definition rng_next :: "rng \<Rightarrow> rng" where
  "rng_next g = (\<lambda>n. g (Suc n))"

definition rng_integers :: "rng \<Rightarrow> int \<Rightarrow> error + (int \<times> rng)" where
  "rng_integers g high =
     (if high \<le> 0 then Inl ValueError else Inr (int (rng_word g) mod high, rng_next g))"

definition rng_random :: "rng \<Rightarrow> rat \<times> rng" where
  "rng_random g = (of_int (int (rng_word g) mod 2 ^ 53) / 2 ^ 53, rng_next g)"

fun rng_integers_size :: "rng \<Rightarrow> int \<Rightarrow> nat \<Rightarrow> int list \<times> rng" where
  "rng_integers_size g high 0 = ([], g)"
| "rng_integers_size g high (Suc n) =
     (case rng_integers_size (rng_next g) high n of
        (xs, g') \<Rightarrow> (int (rng_word g) mod high # xs, g'))"

text \<open>\<^verbatim>\<open>rng.integers(0, high, size=n)\<close>: an empty array for \<open>n = 0\<close>, ValueError for a
  negative size or an empty range.\<close>

definition rng_integers_array :: "rng \<Rightarrow> int \<Rightarrow> int \<Rightarrow> error + (int list \<times> rng)" where
  "rng_integers_array g high n =
     (if n = 0 then Inr ([], g)
      else if n < 0 \<or> high \<le> 0 then Inl ValueError
      else Inr (rng_integers_size g high (nat n)))"

subsection \<open>Arrays\<close>

text \<open>
  The arrays that the function mutates in place and that could be shared with the caller
  (\<open>IC\<close>, \<open>opinions\<close>, \<open>opinion_counts\<close>) live in a store: an address is an index into the
  list of arrays, a new array is appended. An array passed by the caller is an address
  below the length of the store at the call. The four output arrays are allocated by the
  function itself and are carried as values.
\<close>

type_synonym addr = nat
type_synonym heap = "int list list"

definition alloc :: "heap \<Rightarrow> int list \<Rightarrow> addr \<times> heap" where
  "alloc h xs = (length h, h @ [xs])"

definition heap_set :: "heap \<Rightarrow> addr \<Rightarrow> nat \<Rightarrow> int \<Rightarrow> heap" where
  "heap_set h a i v = h[a := (h ! a)[i := v]]"

text \<open>
  The integer dtypes of an array. \<^verbatim>\<open>a[i] = v\<close> with \<open>v\<close> an int64 value (what
  \<^verbatim>\<open>rng.integers\<close> returns) casts \<open>v\<close> to the dtype of \<open>a\<close> without a check: the value is
  reduced modulo \<open>2 ^ bits\<close>, into the signed range for a signed dtype.
\<close>

datatype dtype = Int8 | Int16 | Int32 | Int64 | UInt8 | UInt16 | UInt32 | UInt64

fun bits :: "dtype \<Rightarrow> nat" where
  "bits Int8 = 8"
| "bits Int16 = 16"
| "bits Int32 = 32"
| "bits Int64 = 64"
| "bits UInt8 = 8"
| "bits UInt16 = 16"
| "bits UInt32 = 32"
| "bits UInt64 = 64"

fun is_signed :: "dtype \<Rightarrow> bool" where
  "is_signed Int8 = True"
| "is_signed Int16 = True"
| "is_signed Int32 = True"
| "is_signed Int64 = True"
| "is_signed d = False"

definition np_cast :: "dtype \<Rightarrow> int \<Rightarrow> int" where
  "np_cast d v =
     (if is_signed d
      then (v + 2 ^ (bits d - 1)) mod 2 ^ bits d - 2 ^ (bits d - 1)
      else v mod 2 ^ bits d)"

text \<open>\<^verbatim>\<open>np.zeros(n, dtype=int)\<close>: ValueError for a negative dimension.\<close>

definition np_zeros :: "int \<Rightarrow> error + int list" where
  "np_zeros n = (if n < 0 then Inl ValueError else Inr (replicate (nat n) 0))"

text \<open>An index into an array of length \<open>n\<close>: negative indices count from the end.\<close>

definition np_index :: "nat \<Rightarrow> int \<Rightarrow> error + nat" where
  "np_index n i =
     (if 0 \<le> i \<and> i < int n then Inr (nat i)
      else if - int n \<le> i \<and> i < 0 then Inr (nat (int n + i))
      else Inl IndexError)"

text \<open>Writing slot \<open>i\<close> of one of the output arrays.\<close>

definition np_set :: "'a list \<Rightarrow> nat \<Rightarrow> 'a \<Rightarrow> error + 'a list" where
  "np_set xs i v = (if i < length xs then Inr (xs[i := v]) else Inl IndexError)"

text \<open>
  The abundance table of shape \<open>(S, n)\<close> is the list of its \<open>n\<close> columns, each of length
  \<open>S\<close>. \<^verbatim>\<open>table[:, c] = v\<close> copies \<open>v\<close> into column \<open>c\<close>; numpy broadcasts a \<open>v\<close> of
  length 1 and raises ValueError for any other length than \<open>S\<close>.
\<close>

definition assign_column :: "nat \<Rightarrow> int list list \<Rightarrow> nat \<Rightarrow> int list \<Rightarrow> error + int list list" where
  "assign_column S cols c v =
     (if length cols \<le> c then Inl IndexError
      else if length v = S then Inr (cols[c := v])
      else if length v = 1 then Inr (cols[c := replicate S (hd v)])
      else Inl ValueError)"

text \<open>Lines 60-62: \<^verbatim>\<open>for o in opinions: opinion_counts[o] += 1\<close>, on the array at \<open>a\<close>.\<close>

fun tally :: "heap \<Rightarrow> addr \<Rightarrow> int list \<Rightarrow> error + heap" where
  "tally h a [] = Inr h"
| "tally h a (x # xs) =
     (case np_index (length (h ! a)) x of
        Inl e \<Rightarrow> Inl e
      | Inr i \<Rightarrow> tally (heap_set h a i (h ! a ! i + 1)) a xs)"

text \<open>\<^verbatim>\<open>Counter(opinions)\<close>: the labels in the order of their first occurrence, each with
  the number of its occurrences.\<close>

fun counter_add :: "(int \<times> nat) list \<Rightarrow> int \<Rightarrow> (int \<times> nat) list" where
  "counter_add [] x = [(x, 1)]"
| "counter_add ((y, n) # c) x =
     (if x = y then (y, Suc n) # c else (y, n) # counter_add c x)"

definition Counter :: "int list \<Rightarrow> (int \<times> nat) list" where
  "Counter xs = foldl counter_add [] xs"

text \<open>Lines 106-107: \<^verbatim>\<open>for key, val in counts.items(): opinion_counts[key] = val\<close>.\<close>

fun set_counts :: "heap \<Rightarrow> addr \<Rightarrow> (int \<times> nat) list \<Rightarrow> error + heap" where
  "set_counts h a [] = Inr h"
| "set_counts h a ((key, val) # kvs) =
     (case np_index (length (h ! a)) key of
        Inl e \<Rightarrow> Inl e
      | Inr i \<Rightarrow> set_counts (heap_set h a i (int val)) a kvs)"

subsection \<open>The sampling schedule\<close>

text \<open>
  Lines 65-66. The doubles returned by
  \<^verbatim>\<open>np.logspace(np.log10(J), np.log10(total_time), num_log_steps)\<close> are a parameter of
  the model (\<open>lsp\<close>, and \<open>lsp_c\<close> for \<open>num_log_steps_count\<close>): what they are depends on
  the rounding of the library's \<open>log10\<close> and \<open>power\<close>. \<^verbatim>\<open>np.round\<close> rounds half to even,
  \<^verbatim>\<open>np.unique\<close> returns the distinct values in ascending order. A value that is not
  finite (as for \<open>J < 1\<close> or \<open>T < 1\<close>) is cast by \<^verbatim>\<open>astype(int)\<close> to an integer that
  numpy leaves open; in the model it is that integer.
\<close>

definition np_round :: "rat \<Rightarrow> int" where
  "np_round x =
     (let f = \<lfloor>x\<rfloor>; d = x - of_int f
      in if d < 1 / 2 then f else if 1 / 2 < d then f + 1
         else if even f then f else f + 1)"

definition np_unique :: "int list \<Rightarrow> int list" where
  "np_unique xs = sort (remdups xs)"

definition log_schedule :: "rat list \<Rightarrow> int list" where
  "log_schedule lsp = np_unique (map np_round lsp)"

subsection \<open>The state of a run\<close>

text \<open>
  The local variables of \<^verbatim>\<open>voter_model\<close> once the loop starts. \<open>opinions\<close> and
  \<open>opinion_counts\<close> hold addresses, and \<open>pop_dtype\<close> is the dtype of the array
  \<open>opinions\<close>; \<open>k\<close> and \<open>k_c\<close> start at 1 and only grow, so they are naturals. The four
  outputs are what line 117 returns.
\<close>

type_synonym outputs = "int list list \<times> int list \<times> rat list \<times> rat list"

record vstate =
  heap :: heap
  rng :: rng
  opinions :: addr
  pop_dtype :: dtype
  opinion_counts :: addr
  richness :: "int list"
  time :: "rat list"
  opinion_counts_store :: "int list list"
  time_c :: "rat list"
  k :: nat
  k_c :: nat

datatype flow = Raise error | Return outputs heap | Next vstate

subsection \<open>One elementary step\<close>

text \<open>Lines 84-91: the focal individual copies a peer, or takes a fresh label.
  \<open>set_opinion\<close> is the assignment \<^verbatim>\<open>opinions[i] = v\<close> of a value \<open>v\<close> of the dtype of
  \<open>opinions\<close>: the value read from \<open>opinions\<close> at line 88, the cast of the int64 draw at
  line 91.\<close>

definition set_opinion :: "vstate \<Rightarrow> int \<Rightarrow> int \<Rightarrow> rng \<Rightarrow> error + vstate" where
  "set_opinion st i v g =
     (case np_index (length (heap st ! opinions st)) i of
        Inl e \<Rightarrow> Inl e
      | Inr i' \<Rightarrow> Inr (st\<lparr>heap := heap_set (heap st) (opinions st) i' v, rng := g\<rparr>))"

definition update_opinions :: "int \<Rightarrow> int \<Rightarrow> rat \<Rightarrow> vstate \<Rightarrow> error + vstate" where
  "update_opinions S J nu st =
     (case rng_integers (rng st) J of
        Inl e \<Rightarrow> Inl e
      | Inr (i, g1) \<Rightarrow>
          (case rng_random g1 of
             (u, g2) \<Rightarrow>
               if nu \<le> u then
                 (case rng_integers g2 J of
                    Inl e \<Rightarrow> Inl e
                  | Inr (j, g3) \<Rightarrow>
                      (case np_index (length (heap st ! opinions st)) j of
                         Inl e \<Rightarrow> Inl e
                       | Inr j' \<Rightarrow> set_opinion st i (heap st ! opinions st ! j') g3))
               else
                 (case rng_integers g2 S of
                    Inl e \<Rightarrow> Inl e
                  | Inr (v, g3) \<Rightarrow> set_opinion st i (np_cast (pop_dtype st) v) g3)))"

text \<open>Lines 94-100: the richness checkpoint and the early return at consensus.\<close>

definition record_richness :: "int \<Rightarrow> rat \<Rightarrow> int list \<Rightarrow> int \<Rightarrow> vstate \<Rightarrow> flow" where
  "record_richness J nu log_steps t st =
     (if k st < length log_steps \<and> t = log_steps ! (k st - 1) then
        (case np_set (richness st) (k st)
                (int (length (remdups (heap st ! opinions st)))) of
           Inl e \<Rightarrow> Raise e
         | Inr r \<Rightarrow>
             if J = 0 then Raise ZeroDivisionError
             else (case np_set (time st) (k st) (of_int t / of_int J) of
                Inl e \<Rightarrow> Raise e
              | Inr tm \<Rightarrow>
                  if nu = 0 \<and> r ! k st = 1
                  then Return (opinion_counts_store st, take (k st + 1) r,
                               take (k st + 1) tm, take (k_c st) (time_c st)) (heap st)
                  else Next (st\<lparr>richness := r, time := tm, k := k st + 1\<rparr>)))
      else Next st)"

text \<open>Lines 103-110: the abundance checkpoint, a fresh tally of the population.\<close>

definition record_counts :: "int \<Rightarrow> int \<Rightarrow> int list \<Rightarrow> int \<Rightarrow> vstate \<Rightarrow> flow" where
  "record_counts S J log_steps_count t st =
     (if k_c st < length log_steps_count \<and> t = log_steps_count ! (k_c st - 1) then
        (case np_zeros S of
           Inl e \<Rightarrow> Raise e
         | Inr z \<Rightarrow>
             (case alloc (heap st) z of
                (a, h1) \<Rightarrow>
                  (case set_counts h1 a (Counter (heap st ! opinions st)) of
                     Inl e \<Rightarrow> Raise e
                   | Inr h2 \<Rightarrow>
                       (case assign_column (nat S) (opinion_counts_store st) (k_c st) (h2 ! a) of
                          Inl e \<Rightarrow> Raise e
                        | Inr store \<Rightarrow>
                            if J = 0 then Raise ZeroDivisionError
                            else (case np_set (time_c st) (k_c st) (of_int t / of_int J) of
                               Inl e \<Rightarrow> Raise e
                             | Inr tm \<Rightarrow>
                                 Next (st\<lparr>heap := h2, opinion_counts := a,
                                          opinion_counts_store := store, time_c := tm,
                                          k_c := k_c st + 1\<rparr>))))))
      else Next st)"

text \<open>Lines 113-115, inside the loop: with the richness schedule exhausted, a last
  richness slot that reads 0 is cut off, together with its time.\<close>

definition drop_trailing :: "int list \<Rightarrow> vstate \<Rightarrow> flow" where
  "drop_trailing log_steps st =
     (if k st = length log_steps then
        (if richness st = [] then Raise IndexError
         else if last (richness st) = 0
         then Next (st\<lparr>richness := butlast (richness st), time := butlast (time st)\<rparr>)
         else Next st)
      else Next st)"

definition and_then :: "flow \<Rightarrow> (vstate \<Rightarrow> flow) \<Rightarrow> flow" where
  "and_then r f = (case r of Next st \<Rightarrow> f st | Raise e \<Rightarrow> Raise e | Return out h \<Rightarrow> Return out h)"

text \<open>The body of the loop at step \<open>t\<close>.\<close>

definition step :: "int \<Rightarrow> int \<Rightarrow> rat \<Rightarrow> int list \<Rightarrow> int list \<Rightarrow> vstate \<Rightarrow> int \<Rightarrow> flow" where
  "step S J nu log_steps log_steps_count st t =
     (case update_opinions S J nu st of
        Inl e \<Rightarrow> Raise e
      | Inr st1 \<Rightarrow>
          and_then (and_then (record_richness J nu log_steps t st1)
                             (record_counts S J log_steps_count t))
                   (drop_trailing log_steps))"

text \<open>Line 82: \<^verbatim>\<open>for t in range(1, total_time + 1)\<close>, over the list of the values of \<open>t\<close>.\<close>

fun run_steps :: "int \<Rightarrow> int \<Rightarrow> rat \<Rightarrow> int list \<Rightarrow> int list \<Rightarrow> vstate \<Rightarrow> int list \<Rightarrow> flow" where
  "run_steps S J nu log_steps log_steps_count st [] = Next st"
| "run_steps S J nu log_steps log_steps_count st (t # ts) =
     and_then (step S J nu log_steps log_steps_count st t)
              (\<lambda>st'. run_steps S J nu log_steps log_steps_count st' ts)"

subsection \<open>Initialisation\<close>

text \<open>Lines 50-56. \<open>IC\<close> is the address of the caller's array, if one is given;
  \<^verbatim>\<open>np.array(IC)\<close> and \<^verbatim>\<open>IC.copy()\<close> each allocate.\<close>

definition init_opinions :: "heap \<Rightarrow> rng \<Rightarrow> int \<Rightarrow> int \<Rightarrow> addr option \<Rightarrow> error + (addr \<times> heap \<times> rng)" where
  "init_opinions h g S J IC =
     (case (case IC of
              None \<Rightarrow>
                (case rng_integers_array g S J of
                   Inl e \<Rightarrow> Inl e
                 | Inr (xs, g') \<Rightarrow> Inr (alloc h xs, g'))
            | Some a \<Rightarrow> Inr (alloc h (h ! a), g)) of
        Inl e \<Rightarrow> Inl e
      | Inr ((ic, h1), g1) \<Rightarrow>
          (case alloc h1 (h1 ! ic) of (p, h2) \<Rightarrow> Inr (p, h2, g1)))"

text \<open>Lines 59-62. \<open>p\<close> is the address of \<open>opinions\<close>, \<open>oc\<close> the argument
  \<^verbatim>\<open>opinion_counts\<close>.\<close>

definition init_counts :: "heap \<Rightarrow> int \<Rightarrow> addr \<Rightarrow> addr option \<Rightarrow> error + (addr \<times> heap)" where
  "init_counts h S p oc =
     (case oc of
        None \<Rightarrow>
          (case np_zeros S of
             Inl e \<Rightarrow> Inl e
           | Inr z \<Rightarrow>
               (case alloc h z of
                  (c, h1) \<Rightarrow>
                    (case tally h1 c (h1 ! p) of
                       Inl e \<Rightarrow> Inl e
                     | Inr h2 \<Rightarrow> Inr (c, h2))))
      | Some c \<Rightarrow> Inr (c, h))"

text \<open>The dtype of \<open>opinions\<close>: that of the caller's \<open>IC\<close> (\<^verbatim>\<open>np.array\<close> and \<^verbatim>\<open>copy\<close> keep
  it; a list of Python integers gives int64), or the int64 of \<^verbatim>\<open>rng.integers\<close>. \<open>dts\<close>
  lists the dtypes of the arrays of the store at the call, address by address.\<close>

definition IC_dtype :: "dtype list \<Rightarrow> addr option \<Rightarrow> dtype" where
  "IC_dtype dts IC = (case IC of None \<Rightarrow> Int64 | Some a \<Rightarrow> dts ! a)"

text \<open>Lines 69-80: the output arrays, slot 0, and the two counters. \<open>d\<close> is the dtype
  of \<open>opinions\<close>.\<close>

definition init_outputs ::
  "heap \<Rightarrow> rng \<Rightarrow> dtype \<Rightarrow> int \<Rightarrow> int list \<Rightarrow> int list \<Rightarrow> addr \<Rightarrow> addr \<Rightarrow> error + vstate" where
  "init_outputs h g d S log_steps log_steps_count p c =
     (if S < 0 then Inl ValueError
      else
        (case assign_column (nat S)
                (replicate (length log_steps_count + 1) (replicate (nat S) 0)) 0 (h ! c) of
           Inl e \<Rightarrow> Inl e
         | Inr store \<Rightarrow>
             Inr \<lparr>heap = h, rng = g, opinions = p, pop_dtype = d, opinion_counts = c,
                  richness = (replicate (length log_steps + 1) 0)
                               [0 := int (length (filter (\<lambda>x. 0 < x) (h ! c)))],
                  time = replicate (length log_steps + 1) 0,
                  opinion_counts_store = store,
                  time_c = replicate (length log_steps_count + 1) 0,
                  k = 1, k_c = 1\<rparr>))"

definition init_state ::
  "heap \<Rightarrow> dtype list \<Rightarrow> rng \<Rightarrow> int \<Rightarrow> int \<Rightarrow> int list \<Rightarrow> int list \<Rightarrow>
   addr option \<Rightarrow> addr option \<Rightarrow> error + vstate" where
  "init_state h dts g S J log_steps log_steps_count IC oc =
     (case init_opinions h g S J IC of
        Inl e \<Rightarrow> Inl e
      | Inr (p, h1, g1) \<Rightarrow>
          (case init_counts h1 S p oc of
             Inl e \<Rightarrow> Inl e
           | Inr (c, h2) \<Rightarrow>
               init_outputs h2 g1 (IC_dtype dts IC) S log_steps log_steps_count p c))"

subsection \<open>The function\<close>

text \<open>
  \<open>voter_model h dts fresh S J T nu lsp lsp_c IC oc gen\<close>: \<open>h\<close> is the store at the call
  and \<open>dts\<close> the dtypes of its arrays,
  \<open>fresh\<close> the generator that \<^verbatim>\<open>np.random.default_rng()\<close> would create, \<open>lsp\<close> and
  \<open>lsp_c\<close> the two arrays of \<^verbatim>\<open>np.logspace\<close>, \<open>IC\<close> and \<open>oc\<close> the addresses of the
  arguments \<^verbatim>\<open>IC\<close> and \<^verbatim>\<open>opinion_counts\<close> (\<open>None\<close> as in the source), \<open>gen\<close> the argument
  \<^verbatim>\<open>rng\<close>. The result is the error raised, or the four returned arrays with the store at
  the return.
\<close>

definition voter_run ::
  "heap \<Rightarrow> dtype list \<Rightarrow> rng \<Rightarrow> int \<Rightarrow> int \<Rightarrow> int \<Rightarrow> rat \<Rightarrow> rat list \<Rightarrow> rat list \<Rightarrow>
   addr option \<Rightarrow> addr option \<Rightarrow> rng option \<Rightarrow> flow" where
  "voter_run h dts fresh S J T nu lsp lsp_c IC oc gen =
     (case init_state h dts (case gen of None \<Rightarrow> fresh | Some g \<Rightarrow> g) S J
             (log_schedule lsp) (log_schedule lsp_c) IC oc of
        Inl e \<Rightarrow> Raise e
      | Inr st0 \<Rightarrow>
          run_steps S J nu (log_schedule lsp) (log_schedule lsp_c) st0 [1..T * J])"

definition voter_model ::
  "heap \<Rightarrow> dtype list \<Rightarrow> rng \<Rightarrow> int \<Rightarrow> int \<Rightarrow> int \<Rightarrow> rat \<Rightarrow> rat list \<Rightarrow> rat list \<Rightarrow>
   addr option \<Rightarrow> addr option \<Rightarrow> rng option \<Rightarrow> error + (outputs \<times> heap)" where
  "voter_model h dts fresh S J T nu lsp lsp_c IC oc gen =
     (case voter_run h dts fresh S J T nu lsp lsp_c IC oc gen of
        Raise e \<Rightarrow> Inl e
      | Return out h' \<Rightarrow> Inr (out, h')
      | Next st \<Rightarrow>
          Inr ((opinion_counts_store st, richness st, time st, time_c st), heap st))"

subsection \<open>Predicates on states\<close>

text \<open>The labels of a population lie in \<open>[0, S)\<close>.\<close>

definition labels_in :: "int \<Rightarrow> int list \<Rightarrow> bool" where
  "labels_in S xs = list_all (\<lambda>l. 0 \<le> l \<and> l < S) xs"

text \<open>A label of \<open>[0, S)\<close> stored into an array of dtype \<open>d\<close> is a label of \<open>[0, S)\<close>: the
  dtype is unsigned, or it is signed and holds \<open>S - 1\<close>.\<close>

definition dtype_keeps :: "dtype \<Rightarrow> int \<Rightarrow> bool" where
  "dtype_keeps d S = (\<not> is_signed d \<or> S \<le> 2 ^ (bits d - 1))"

text \<open>The entries of a population are indices of an array of length \<open>S\<close>, counted from
  the front or from the end.\<close>

definition labels_idx :: "int \<Rightarrow> int list \<Rightarrow> bool" where
  "labels_idx S xs = list_all (\<lambda>l. - S \<le> l \<and> l < S) xs"

definition pop_idx :: "int \<Rightarrow> int \<Rightarrow> vstate \<Rightarrow> bool" where
  "pop_idx S J st =
     (opinions st < length (heap st) \<and> int (length (heap st ! opinions st)) = J \<and>
      labels_idx S (heap st ! opinions st))"

text \<open>The population of a state: \<open>J\<close> individuals with labels in \<open>[0, S)\<close>.\<close>

definition pop_ok :: "int \<Rightarrow> int \<Rightarrow> vstate \<Rightarrow> bool" where
  "pop_ok S J st =
     (opinions st < length (heap st) \<and> int (length (heap st ! opinions st)) = J \<and>
      labels_in S (heap st ! opinions st))"

text \<open>The output arrays of a state, for schedules of lengths \<open>L\<close> and \<open>Lc\<close>: the richness
  arrays have their full length while the richness schedule is not exhausted, and slot 0
  of the richness is not 0.\<close>

definition slots_ok :: "nat \<Rightarrow> nat \<Rightarrow> vstate \<Rightarrow> bool" where
  "slots_ok L Lc st =
     (1 \<le> k st \<and> 1 \<le> k_c st \<and> richness st \<noteq> [] \<and> hd (richness st) \<noteq> 0 \<and>
      (L \<le> k st \<or> length (richness st) = L + 1 \<and> length (time st) = L + 1) \<and>
      length (opinion_counts_store st) = Lc + 1 \<and> length (time_c st) = Lc + 1)"

text \<open>A column of the abundance table that is a count vector of \<open>J\<close> individuals.\<close>

definition good_column :: "int \<Rightarrow> int list \<Rightarrow> bool" where
  "good_column J col = (sum_list col = J \<and> list_all (\<lambda>x. 0 \<le> x) col)"

text \<open>The columns \<open>m, ..., n - 1\<close> of a table are count vectors of \<open>J\<close> individuals.\<close>

definition written_ok :: "nat \<Rightarrow> int \<Rightarrow> int list list \<Rightarrow> nat \<Rightarrow> bool" where
  "written_ok m J store n =
     (n \<le> length store \<and> list_all (\<lambda>c. good_column J (store ! c)) [m..<n])"

text \<open>What the loop keeps true of the population and of the abundance table, where the
  slots from \<open>m\<close> on are looked at.\<close>

definition run_inv :: "nat \<Rightarrow> int \<Rightarrow> int \<Rightarrow> vstate \<Rightarrow> bool" where
  "run_inv m S J st =
     (pop_ok S J st \<and> dtype_keeps (pop_dtype st) S \<and>
      written_ok m J (opinion_counts_store st) (k_c st) \<and>
      length (time_c st) = length (opinion_counts_store st))"

text \<open>The argument \<open>IC\<close> is valid for \<open>S\<close> and \<open>J\<close>: an array of the store of length \<open>J\<close>
  with labels in \<open>[0, S)\<close>, or \<open>None\<close> with a non-empty range of labels to draw from.\<close>

definition valid_IC :: "heap \<Rightarrow> int \<Rightarrow> int \<Rightarrow> addr option \<Rightarrow> bool" where
  "valid_IC h S J IC =
     (case IC of
        None \<Rightarrow> 1 \<le> S \<and> 0 \<le> J
      | Some a \<Rightarrow> a < length h \<and> int (length (h ! a)) = J \<and> labels_in S (h ! a))"

text \<open>The argument \<open>opinion_counts\<close> is valid for \<open>S\<close> and \<open>J\<close>: \<open>None\<close>, or an array of the
  store that is a count vector of \<open>J\<close> individuals over \<open>S\<close> labels (the docstring's
  precomputed counts).\<close>

definition valid_counts :: "heap \<Rightarrow> int \<Rightarrow> int \<Rightarrow> addr option \<Rightarrow> bool" where
  "valid_counts h S J oc =
     (case oc of
        None \<Rightarrow> True
      | Some c \<Rightarrow> c < length h \<and> length (h ! c) = nat S \<and> good_column J (h ! c))"

section \<open>Properties\<close>

subsection \<open>Indices, draws and the store\<close>

lemma np_index_bound: "np_index n i = Inr j \<Longrightarrow> j < n"
  by (auto simp: np_index_def split: if_splits)

lemma np_index_in_range: "0 \<le> i \<Longrightarrow> i < int n \<Longrightarrow> np_index n i = Inr (nat i)"
  by (simp add: np_index_def)

lemma rng_integers_range: "rng_integers g high = Inr (v, g') \<Longrightarrow> 0 \<le> v \<and> v < high"
  by (auto simp: rng_integers_def split: if_splits)

lemma rng_integers_succeeds:
  "0 < high \<Longrightarrow> \<exists>v g'. rng_integers g high = Inr (v, g') \<and> 0 \<le> v \<and> v < high"
  by (simp add: rng_integers_def)

lemma length_heap_set [simp]: "length (heap_set h a i v) = length h"
  by (simp add: heap_set_def)

lemma heap_set_other [simp]: "b \<noteq> a \<Longrightarrow> heap_set h a i v ! b = h ! b"
  by (simp add: heap_set_def)

lemma heap_set_same [simp]: "a < length h \<Longrightarrow> heap_set h a i v ! a = (h ! a)[i := v]"
  by (simp add: heap_set_def)

lemma heap_set_beyond: "length h \<le> a \<Longrightarrow> heap_set h a i v = h"
  by (simp add: heap_set_def list_update_beyond)

lemma length_heap_set_nth [simp]: "length (heap_set h a i v ! b) = length (h ! b)"
proof (cases "a < length h")
  case True
  then show ?thesis by (cases "b = a") simp_all
next
  case False
  then show ?thesis by (simp add: heap_set_beyond)
qed

lemma take_heap_set [simp]: "n \<le> a \<Longrightarrow> take n (heap_set h a i v) = take n h"
  by (simp add: heap_set_def)

lemma labels_in_update:
  "labels_in S xs \<Longrightarrow> 0 \<le> v \<and> v < S \<Longrightarrow> labels_in S (xs[i := v])"
  unfolding labels_in_def list_all_iff by (auto dest: set_update_subset_insert[THEN subsetD])

lemma labels_in_member: "labels_in S xs \<Longrightarrow> v \<in> set xs \<Longrightarrow> 0 \<le> v \<and> v < S"
  by (simp add: labels_in_def list_all_iff)

lemma labels_idx_update:
  "labels_idx S xs \<Longrightarrow> - S \<le> v \<and> v < S \<Longrightarrow> labels_idx S (xs[i := v])"
  unfolding labels_idx_def list_all_iff by (auto dest: set_update_subset_insert[THEN subsetD])

lemma labels_idx_member: "labels_idx S xs \<Longrightarrow> v \<in> set xs \<Longrightarrow> - S \<le> v \<and> v < S"
  by (simp add: labels_idx_def list_all_iff)

lemma labels_in_idx: "labels_in S xs \<Longrightarrow> labels_idx S xs"
  by (auto simp: labels_in_def labels_idx_def list_all_iff)

lemma pop_ok_idx: "pop_ok S J st \<Longrightarrow> pop_idx S J st"
  by (simp add: pop_ok_def pop_idx_def labels_in_idx)

subsection \<open>The cast of a draw\<close>

lemma bits_pos: "0 < bits d"
  by (cases d) simp_all

lemma power_bits: "(2::int) ^ bits d = 2 * 2 ^ (bits d - 1)"
proof -
  from bits_pos[of d] obtain n where "bits d = Suc n" by (cases "bits d") simp_all
  then show ?thesis by simp
qed

lemma np_cast_keeps:
  assumes "dtype_keeps d S" and "0 \<le> v" and "v < S"
  shows "0 \<le> np_cast d v \<and> np_cast d v < S"
proof (cases "is_signed d")
  case True
  with assms(1) have S: "S \<le> 2 ^ (bits d - 1)" by (simp add: dtype_keeps_def)
  let ?H = "(2::int) ^ (bits d - 1)"
  from assms(2,3) S have "0 \<le> v + ?H" "v + ?H < 2 * ?H" by simp_all
  then have "(v + ?H) mod (2 * ?H) = v + ?H" by simp
  with True assms(2,3) show ?thesis by (simp add: np_cast_def power_bits)
next
  case False
  have "v mod 2 ^ bits d \<le> v" using assms(2) by (simp add: zmod_le_nonneg_dividend)
  moreover have "0 \<le> v mod (2::int) ^ bits d" by simp
  ultimately show ?thesis using False assms(3) by (simp add: np_cast_def)
qed

lemma np_cast_index:
  assumes "0 \<le> v" and "v < S"
  shows "- S \<le> np_cast d v \<and> np_cast d v < S"
proof (cases "is_signed d")
  case True
  let ?H = "(2::int) ^ (bits d - 1)"
  have H: "0 < ?H" by simp
  show ?thesis
  proof (cases "v < ?H")
    case True
    with assms have "dtype_keeps d (v + 1)" by (simp add: dtype_keeps_def)
    from np_cast_keeps[OF this assms(1)] assms(2) show ?thesis by simp
  next
    case False
    with assms(2) have S: "?H < S" by simp
    define r where "r = (v + ?H) mod (2 * ?H)"
    have r: "0 \<le> r" "r < 2 * ?H" using H by (simp_all add: r_def)
    have "np_cast d v = r - ?H"
      using \<open>is_signed d\<close> by (simp add: np_cast_def power_bits r_def)
    with r S show ?thesis by simp
  qed
next
  case False
  then have "dtype_keeps d S" by (simp add: dtype_keeps_def)
  from np_cast_keeps[OF this assms] show ?thesis by simp
qed

subsection \<open>The update of the population\<close>

lemma set_opinion_shape:
  "set_opinion st i v g = Inr st' \<Longrightarrow>
   \<exists>i'. i' < length (heap st ! opinions st) \<and>
        st' = st\<lparr>heap := heap_set (heap st) (opinions st) i' v, rng := g\<rparr>"
  by (auto simp: set_opinion_def split: sum.splits dest: np_index_bound)

lemma update_opinions_shape:
  assumes "update_opinions S J nu st = Inr st'"
  shows "\<exists>i' v g. i' < length (heap st ! opinions st) \<and>
           (v \<in> set (heap st ! opinions st) \<or>
            (\<exists>r. 0 \<le> r \<and> r < S \<and> v = np_cast (pop_dtype st) r)) \<and>
           st' = st\<lparr>heap := heap_set (heap st) (opinions st) i' v, rng := g\<rparr>"
proof -
  obtain i g1 where i: "rng_integers (rng st) J = Inr (i, g1)"
    using assms by (auto simp: update_opinions_def split: sum.splits)
  obtain u g2 where u: "rng_random g1 = (u, g2)"
    by (cases "rng_random g1")
  show ?thesis
  proof (cases "nu \<le> u")
    case True
    with assms i u obtain j g3 j' where
      j: "rng_integers g2 J = Inr (j, g3)"
      and j': "np_index (length (heap st ! opinions st)) j = Inr j'"
      and s: "set_opinion st i (heap st ! opinions st ! j') g3 = Inr st'"
      by (auto simp: update_opinions_def split: sum.splits)
    from j' have "heap st ! opinions st ! j' \<in> set (heap st ! opinions st)"
      by (simp add: np_index_bound)
    with set_opinion_shape[OF s] show ?thesis by blast
  next
    case False
    with assms i u obtain r g3 where
      r: "rng_integers g2 S = Inr (r, g3)"
      and s: "set_opinion st i (np_cast (pop_dtype st) r) g3 = Inr st'"
      by (auto simp: update_opinions_def split: sum.splits)
    from rng_integers_range[OF r] set_opinion_shape[OF s] show ?thesis by blast
  qed
qed

lemma update_opinions_fields:
  assumes "update_opinions S J nu st = Inr st'"
  shows "\<exists>hp g. st' = st\<lparr>heap := hp, rng := g\<rparr>"
  using update_opinions_shape[OF assms] by blast

lemma update_opinions_labels:
  assumes "update_opinions S J nu st = Inr st'" and "labels_in S (heap st ! opinions st)"
    and "dtype_keeps (pop_dtype st) S"
  shows "labels_in S (heap st' ! opinions st')"
proof -
  from update_opinions_shape[OF assms(1)] obtain i' v g where
    v: "v \<in> set (heap st ! opinions st) \<or>
        (\<exists>r. 0 \<le> r \<and> r < S \<and> v = np_cast (pop_dtype st) r)"
    and st': "st' = st\<lparr>heap := heap_set (heap st) (opinions st) i' v, rng := g\<rparr>"
    by blast
  from v assms(2,3) have "0 \<le> v \<and> v < S"
    by (auto dest: labels_in_member np_cast_keeps)
  with assms(2) st' show ?thesis
    by (cases "opinions st < length (heap st)") (simp_all add: labels_in_update heap_set_beyond)
qed

lemma update_opinions_indices:
  assumes "update_opinions S J nu st = Inr st'" and "labels_idx S (heap st ! opinions st)"
  shows "labels_idx S (heap st' ! opinions st')"
proof -
  from update_opinions_shape[OF assms(1)] obtain i' v g where
    v: "v \<in> set (heap st ! opinions st) \<or>
        (\<exists>r. 0 \<le> r \<and> r < S \<and> v = np_cast (pop_dtype st) r)"
    and st': "st' = st\<lparr>heap := heap_set (heap st) (opinions st) i' v, rng := g\<rparr>"
    by blast
  from v assms(2) have "- S \<le> v \<and> v < S"
    by (auto dest: labels_idx_member np_cast_index)
  with assms(2) st' show ?thesis
    by (cases "opinions st < length (heap st)") (simp_all add: labels_idx_update heap_set_beyond)
qed

lemma update_opinions_pop_ok:
  assumes "update_opinions S J nu st = Inr st'" and "pop_ok S J st"
    and "dtype_keeps (pop_dtype st) S"
  shows "pop_ok S J st'"
proof -
  from update_opinions_shape[OF assms(1)] obtain i' v g where
    st': "st' = st\<lparr>heap := heap_set (heap st) (opinions st) i' v, rng := g\<rparr>"
    by blast
  from update_opinions_labels[OF assms(1) _ assms(3)] assms(2)
  have "labels_in S (heap st' ! opinions st')" by (simp add: pop_ok_def)
  with assms(2) st' show ?thesis by (simp add: pop_ok_def)
qed

lemma update_opinions_pop_idx:
  assumes "update_opinions S J nu st = Inr st'" and "pop_idx S J st"
  shows "pop_idx S J st'"
proof -
  from update_opinions_shape[OF assms(1)] obtain i' v g where
    st': "st' = st\<lparr>heap := heap_set (heap st) (opinions st) i' v, rng := g\<rparr>"
    by blast
  from update_opinions_indices[OF assms(1)] assms(2)
  have "labels_idx S (heap st' ! opinions st')" by (simp add: pop_idx_def)
  with assms(2) st' show ?thesis by (simp add: pop_idx_def)
qed

lemma pop_ok_S_pos: "pop_ok S J st \<Longrightarrow> 1 \<le> J \<Longrightarrow> 0 < S"
  by (cases "heap st ! opinions st") (auto simp: pop_ok_def labels_in_def)

lemma set_opinion_succeeds:
  "pop_idx S J st \<Longrightarrow> 0 \<le> i \<Longrightarrow> i < J \<Longrightarrow> \<exists>st'. set_opinion st i v g = Inr st'"
  by (simp add: set_opinion_def pop_idx_def np_index_in_range)

lemma update_opinions_succeeds:
  assumes "pop_idx S J st" and "1 \<le> J" and "0 < S"
  shows "\<exists>st'. update_opinions S J nu st = Inr st'"
proof -
  from assms(2) obtain i g1 where i: "rng_integers (rng st) J = Inr (i, g1)" "0 \<le> i" "i < J"
    using rng_integers_succeeds[of J "rng st"] by auto
  obtain u g2 where u: "rng_random g1 = (u, g2)"
    by (cases "rng_random g1")
  show ?thesis
  proof (cases "nu \<le> u")
    case True
    from assms(2) obtain j g3 where j: "rng_integers g2 J = Inr (j, g3)" "0 \<le> j" "j < J"
      using rng_integers_succeeds[of J g2] by auto
    with assms(1) have "np_index (length (heap st ! opinions st)) j = Inr (nat j)"
      by (simp add: pop_idx_def np_index_in_range)
    with i u True j set_opinion_succeeds[OF assms(1) i(2,3)] show ?thesis
      by (simp add: update_opinions_def)
  next
    case False
    from assms(3) obtain v g3 where "rng_integers g2 S = Inr (v, g3)"
      using rng_integers_succeeds[of S g2] by auto
    with i u False set_opinion_succeeds[OF assms(1) i(2,3)] show ?thesis
      by (simp add: update_opinions_def)
  qed
qed

subsection \<open>Tallies\<close>

lemma sum_list_update_int:
  "i < length xs \<Longrightarrow> sum_list (xs[i := v]) = sum_list xs - xs ! i + (v::int)"
proof (induction xs arbitrary: i)
  case Nil
  then show ?case by simp
next
  case (Cons x xs)
  then show ?case by (cases i) simp_all
qed

lemma list_all_update: "list_all P xs \<Longrightarrow> P v \<Longrightarrow> list_all P (xs[i := v])"
  unfolding list_all_iff by (auto dest: set_update_subset_insert[THEN subsetD])

lemma positive_entry:
  "list_all (\<lambda>x. 0 \<le> x) xs \<Longrightarrow> 0 < sum_list xs \<Longrightarrow> filter (\<lambda>x. 0 < x) xs \<noteq> ([]::int list)"
  by (induction xs) (auto split: if_splits)

lemma counter_add_keys: "fst ` set (counter_add c x) = insert x (fst ` set c)"
  by (induction c x rule: counter_add.induct) auto

lemma counter_add_distinct: "distinct (map fst c) \<Longrightarrow> distinct (map fst (counter_add c x))"
  by (induction c x rule: counter_add.induct) (auto simp: counter_add_keys)

lemma counter_add_sum: "sum_list (map snd (counter_add c x)) = Suc (sum_list (map snd c))"
  by (induction c x rule: counter_add.induct) auto

lemma foldl_counter_add:
  "distinct (map fst c) \<Longrightarrow>
   distinct (map fst (foldl counter_add c xs)) \<and>
   fst ` set (foldl counter_add c xs) = fst ` set c \<union> set xs \<and>
   sum_list (map snd (foldl counter_add c xs)) = sum_list (map snd c) + length xs"
proof (induction xs arbitrary: c)
  case Nil
  then show ?case by simp
next
  case (Cons x xs)
  from Cons.IH[OF counter_add_distinct[OF Cons.prems], of x] show ?case
    by (simp add: counter_add_keys counter_add_sum)
qed

lemma Counter_distinct: "distinct (map fst (Counter xs))"
  using foldl_counter_add[of "[]" xs] by (simp add: Counter_def)

lemma Counter_keys: "fst ` set (Counter xs) = set xs"
  using foldl_counter_add[of "[]" xs] by (simp add: Counter_def)

lemma Counter_sum: "sum_list (map snd (Counter xs)) = length xs"
  using foldl_counter_add[of "[]" xs] by (simp add: Counter_def)

lemma set_counts_frame:
  "set_counts h a kvs = Inr h' \<Longrightarrow>
   length h' = length h \<and> (\<forall>b. b \<noteq> a \<longrightarrow> h' ! b = h ! b) \<and>
   length (h' ! a) = length (h ! a)"
proof (induction kvs arbitrary: h)
  case Nil
  then show ?case by simp
next
  case (Cons kv kvs)
  obtain key val where kv: "kv = (key, val)" by (cases kv)
  from Cons.prems kv obtain i where
    "set_counts (heap_set h a i (int val)) a kvs = Inr h'"
    by (auto split: sum.splits)
  from Cons.IH[OF this] show ?case by simp
qed

lemma set_counts_take:
  "set_counts h a kvs = Inr h' \<Longrightarrow> n \<le> a \<Longrightarrow> take n h' = take n h"
proof (induction kvs arbitrary: h)
  case Nil
  then show ?case by simp
next
  case (Cons kv kvs)
  obtain key val where kv: "kv = (key, val)" by (cases kv)
  from Cons.prems kv obtain i where
    "set_counts (heap_set h a i (int val)) a kvs = Inr h'"
    by (auto split: sum.splits)
  from Cons.IH[OF this Cons.prems(2)] Cons.prems(2) show ?case by simp
qed

lemma set_counts_sum:
  assumes "a < length h" and "distinct (map fst kvs)"
    and "\<forall>key \<in> fst ` set kvs. 0 \<le> key \<and> key < int (length (h ! a)) \<and> h ! a ! nat key = 0"
    and "list_all (\<lambda>x. 0 \<le> x) (h ! a)"
  shows "\<exists>h'. set_counts h a kvs = Inr h' \<and>
           sum_list (h' ! a) = sum_list (h ! a) + int (sum_list (map snd kvs)) \<and>
           list_all (\<lambda>x. 0 \<le> x) (h' ! a)"
  using assms
proof (induction kvs arbitrary: h)
  case Nil
  then show ?case by simp
next
  case (Cons kv kvs)
  obtain key val where kv: "kv = (key, val)" by (cases kv)
  let ?h1 = "heap_set h a (nat key) (int val)"
  from Cons.prems(3) kv have key: "0 \<le> key" "key < int (length (h ! a))" "h ! a ! nat key = 0"
    by simp_all
  then have idx: "np_index (length (h ! a)) key = Inr (nat key)"
    by (simp add: np_index_in_range)
  have h1a: "?h1 ! a = (h ! a)[nat key := int val]"
    using Cons.prems(1) by simp
  have 1: "a < length ?h1" using Cons.prems(1) by simp
  have 2: "distinct (map fst kvs)" using Cons.prems(2) by simp
  have 3: "\<forall>k' \<in> fst ` set kvs.
             0 \<le> k' \<and> k' < int (length (?h1 ! a)) \<and> ?h1 ! a ! nat k' = 0"
  proof
    fix k' assume k': "k' \<in> fst ` set kvs"
    with Cons.prems(2) kv have "k' \<noteq> key" by auto
    moreover from k' Cons.prems(3)
    have "0 \<le> k' \<and> k' < int (length (h ! a)) \<and> h ! a ! nat k' = 0" by auto
    ultimately show "0 \<le> k' \<and> k' < int (length (?h1 ! a)) \<and> ?h1 ! a ! nat k' = 0"
      using key h1a by (auto simp: nth_list_update)
  qed
  have 4: "list_all (\<lambda>x. 0 \<le> x) (?h1 ! a)"
    using Cons.prems(4) h1a by (simp add: list_all_update)
  from Cons.IH[OF 1 2 3 4] obtain h' where
    h': "set_counts ?h1 a kvs = Inr h'"
      "sum_list (h' ! a) = sum_list (?h1 ! a) + int (sum_list (map snd kvs))"
      "list_all (\<lambda>x. 0 \<le> x) (h' ! a)"
    by blast
  have "sum_list (?h1 ! a) = sum_list (h ! a) + int val"
    using key h1a by (simp add: sum_list_update_int)
  with h' idx kv show ?case by simp
qed

lemma tally_frame:
  "tally h a xs = Inr h' \<Longrightarrow>
   length h' = length h \<and> (\<forall>b. b \<noteq> a \<longrightarrow> h' ! b = h ! b) \<and>
   length (h' ! a) = length (h ! a)"
proof (induction xs arbitrary: h)
  case Nil
  then show ?case by simp
next
  case (Cons x xs)
  from Cons.prems obtain i where
    "tally (heap_set h a i (h ! a ! i + 1)) a xs = Inr h'"
    by (auto split: sum.splits)
  from Cons.IH[OF this] show ?case by simp
qed

lemma tally_take:
  "tally h a xs = Inr h' \<Longrightarrow> n \<le> a \<Longrightarrow> take n h' = take n h"
proof (induction xs arbitrary: h)
  case Nil
  then show ?case by simp
next
  case (Cons x xs)
  from Cons.prems obtain i where
    "tally (heap_set h a i (h ! a ! i + 1)) a xs = Inr h'"
    by (auto split: sum.splits)
  from Cons.IH[OF this Cons.prems(2)] Cons.prems(2) show ?case by simp
qed

lemma tally_sum:
  assumes "a < length h" and "labels_in (int (length (h ! a))) xs"
    and "list_all (\<lambda>x. 0 \<le> x) (h ! a)"
  shows "\<exists>h'. tally h a xs = Inr h' \<and>
           sum_list (h' ! a) = sum_list (h ! a) + int (length xs) \<and>
           list_all (\<lambda>x. 0 \<le> x) (h' ! a)"
  using assms
proof (induction xs arbitrary: h)
  case Nil
  then show ?case by simp
next
  case (Cons x xs)
  let ?h1 = "heap_set h a (nat x) (h ! a ! nat x + 1)"
  from Cons.prems(2) have x: "0 \<le> x" "x < int (length (h ! a))"
    and xs: "labels_in (int (length (h ! a))) xs"
    by (simp_all add: labels_in_def)
  then have idx: "np_index (length (h ! a)) x = Inr (nat x)"
    by (simp add: np_index_in_range)
  have h1a: "?h1 ! a = (h ! a)[nat x := h ! a ! nat x + 1]"
    using Cons.prems(1) by simp
  have old: "0 \<le> h ! a ! nat x"
    using Cons.prems(3) x by (simp add: list_all_length)
  have 1: "a < length ?h1" using Cons.prems(1) by simp
  have 2: "labels_in (int (length (?h1 ! a))) xs" using xs by simp
  have 3: "list_all (\<lambda>x. 0 \<le> x) (?h1 ! a)"
    using Cons.prems(3) h1a old by (simp add: list_all_update)
  from Cons.IH[OF 1 2 3] obtain h' where
    h': "tally ?h1 a xs = Inr h'"
      "sum_list (h' ! a) = sum_list (?h1 ! a) + int (length xs)"
      "list_all (\<lambda>x. 0 \<le> x) (h' ! a)"
    by blast
  have "sum_list (?h1 ! a) = sum_list (h ! a) + 1"
    using x h1a by (simp add: sum_list_update_int)
  with h' idx show ?case by simp
qed

subsection \<open>The checkpoints\<close>

lemma record_richness_Next:
  assumes "record_richness J nu ls t st = Next st'"
  shows "st' = st \<or>
         (k st < length ls \<and> k st < length (richness st) \<and> k st < length (time st) \<and>
          (\<exists>r tm. st' = st\<lparr>richness := (richness st)[k st := r],
                             time := (time st)[k st := tm], k := k st + 1\<rparr>))"
  using assms
  by (auto simp: record_richness_def np_set_def split: if_splits sum.splits)

lemma record_richness_Return:
  assumes "record_richness J nu ls t st = Return out h"
  shows "h = heap st \<and> fst out = opinion_counts_store st \<and>
         snd (snd (snd out)) = take (k_c st) (time_c st)"
  using assms
  by (auto simp: record_richness_def np_set_def split: if_splits sum.splits)

lemma record_richness_no_raise:
  assumes "slots_ok (length ls) Lc st" and "J \<noteq> 0"
  shows "record_richness J nu ls t st \<noteq> Raise e"
  using assms
  by (auto simp: record_richness_def np_set_def slots_ok_def split: if_splits sum.splits)

lemma hd_list_update: "0 < i \<Longrightarrow> hd (xs[i := v]) = hd xs"
  by (cases xs; cases i) simp_all

lemma record_richness_slots_ok:
  assumes "record_richness J nu ls t st = Next st'" and "slots_ok (length ls) Lc st"
  shows "slots_ok (length ls) Lc st'"
  using record_richness_Next[OF assms(1)] assms(2)
  by (auto simp: slots_ok_def hd_list_update)

lemma drop_trailing_Next:
  assumes "drop_trailing ls st = Next st'"
  shows "st' = st \<or>
         (k st = length ls \<and> richness st \<noteq> [] \<and> last (richness st) = 0 \<and>
          st' = st\<lparr>richness := butlast (richness st), time := butlast (time st)\<rparr>)"
  using assms by (auto simp: drop_trailing_def split: if_splits)

lemma drop_trailing_flow:
  "drop_trailing ls st \<noteq> Return out h"
  by (auto simp: drop_trailing_def)

lemma drop_trailing_no_raise:
  "slots_ok L Lc st \<Longrightarrow> drop_trailing ls st \<noteq> Raise e"
  by (auto simp: drop_trailing_def slots_ok_def)

lemma butlast_keeps_hd:
  assumes "xs \<noteq> []" and "hd xs \<noteq> (0::int)" and "last xs = 0"
  shows "butlast xs \<noteq> [] \<and> hd (butlast xs) = hd xs"
proof (cases xs)
  case Nil
  with assms show ?thesis by simp
next
  case (Cons x ys)
  with assms show ?thesis by (cases ys) auto
qed

lemma drop_trailing_slots_ok:
  assumes "drop_trailing ls st = Next st'" and "slots_ok (length ls) Lc st"
  shows "slots_ok (length ls) Lc st'"
  using drop_trailing_Next[OF assms(1)] assms(2) butlast_keeps_hd[of "richness st"]
  by (auto simp: slots_ok_def)

lemma record_counts_flow: "record_counts S J lsc t st \<noteq> Return out h"
  by (auto simp: record_counts_def alloc_def split: if_splits sum.splits)

lemma record_counts_Next:
  assumes "record_counts S J lsc t st = Next st'"
  shows "st' = st \<or>
         (k_c st < length lsc \<and> k_c st < length (opinion_counts_store st) \<and>
          k_c st < length (time_c st) \<and> 0 \<le> S \<and>
          (\<exists>h2 tm.
             set_counts (heap st @ [replicate (nat S) 0]) (length (heap st))
               (Counter (heap st ! opinions st)) = Inr h2 \<and>
             st' = st\<lparr>heap := h2, opinion_counts := length (heap st),
                       opinion_counts_store :=
                         (opinion_counts_store st)[k_c st := h2 ! length (heap st)],
                       time_c := (time_c st)[k_c st := tm], k_c := k_c st + 1\<rparr>))"
proof (cases "k_c st < length lsc \<and> t = lsc ! (k_c st - 1)")
  case False
  then have "record_counts S J lsc t st = Next st"
    unfolding record_counts_def by (rule if_not_P)
  with assms show ?thesis by simp
next
  case True
  let ?a = "length (heap st)"
  let ?h1 = "heap st @ [replicate (nat S) 0]"
  from assms True have S: "0 \<le> S"
    by (auto simp: record_counts_def np_zeros_def split: if_splits)
  with assms True obtain h2 where
    h2: "set_counts ?h1 ?a (Counter (heap st ! opinions st)) = Inr h2"
    by (auto simp: record_counts_def np_zeros_def alloc_def split: sum.splits)
  from set_counts_frame[OF h2] have len: "length (h2 ! ?a) = nat S" by simp
  from assms True S h2 len show ?thesis
    by (auto simp: record_counts_def np_zeros_def alloc_def assign_column_def np_set_def
        split: if_splits sum.splits)
qed

lemma snapshot_counts:
  assumes "labels_in S xs" and "0 \<le> S"
  shows "\<exists>h2. set_counts (h @ [replicate (nat S) 0]) (length h) (Counter xs) = Inr h2 \<and>
           sum_list (h2 ! length h) = int (length xs) \<and>
           list_all (\<lambda>x. 0 \<le> x) (h2 ! length h)"
proof -
  let ?h1 = "h @ [replicate (nat S) 0]"
  have z: "?h1 ! length h = replicate (nat S) 0" by simp
  have 1: "length h < length ?h1" by simp
  have 3: "\<forall>key \<in> fst ` set (Counter xs).
             0 \<le> key \<and> key < int (length (?h1 ! length h)) \<and> ?h1 ! length h ! nat key = 0"
  proof
    fix key assume "key \<in> fst ` set (Counter xs)"
    then have "key \<in> set xs" by (simp add: Counter_keys)
    with assms(1) have "0 \<le> key \<and> key < S" by (rule labels_in_member)
    with assms(2) show
      "0 \<le> key \<and> key < int (length (?h1 ! length h)) \<and> ?h1 ! length h ! nat key = 0"
      by (simp add: z)
  qed
  have 4: "list_all (\<lambda>x. 0 \<le> x) (?h1 ! length h)"
    by (simp add: z list_all_iff)
  from set_counts_sum[OF 1 Counter_distinct 3 4] show ?thesis
    by (simp add: z Counter_sum sum_list_replicate)
qed

lemma np_index_valid: "- int n \<le> i \<Longrightarrow> i < int n \<Longrightarrow> \<exists>j. np_index n i = Inr j"
  by (simp add: np_index_def)

lemma set_counts_succeeds:
  assumes "\<forall>key \<in> fst ` set kvs.
             - int (length (h ! a)) \<le> key \<and> key < int (length (h ! a))"
  shows "\<exists>h'. set_counts h a kvs = Inr h'"
  using assms
proof (induction kvs arbitrary: h)
  case Nil
  show ?case by simp
next
  case (Cons kv kvs)
  obtain key val where kv: "kv = (key, val)" by (cases kv)
  from Cons.prems kv obtain i where i: "np_index (length (h ! a)) key = Inr i"
    using np_index_valid[of "length (h ! a)" key] by auto
  have "\<forall>key \<in> fst ` set kvs.
          - int (length (heap_set h a i (int val) ! a)) \<le> key \<and>
          key < int (length (heap_set h a i (int val) ! a))"
    using Cons.prems by simp
  from Cons.IH[OF this] i kv show ?case by simp
qed

lemma record_counts_no_raise:
  assumes "pop_idx S J st" and "slots_ok L (length lsc) st" and "1 \<le> J" and "0 \<le> S"
  shows "record_counts S J lsc t st \<noteq> Raise e"
proof (cases "k_c st < length lsc \<and> t = lsc ! (k_c st - 1)")
  case False
  then have "record_counts S J lsc t st = Next st"
    unfolding record_counts_def by (rule if_not_P)
  then show ?thesis by simp
next
  case True
  let ?a = "length (heap st)"
  let ?h1 = "heap st @ [replicate (nat S) 0]"
  from assms(1) have idx: "labels_idx S (heap st ! opinions st)" by (simp add: pop_idx_def)
  have "\<forall>key \<in> fst ` set (Counter (heap st ! opinions st)).
          - int (length (?h1 ! ?a)) \<le> key \<and> key < int (length (?h1 ! ?a))"
  proof
    fix key assume "key \<in> fst ` set (Counter (heap st ! opinions st))"
    then have "key \<in> set (heap st ! opinions st)" by (simp add: Counter_keys)
    with idx have "- S \<le> key \<and> key < S" by (rule labels_idx_member)
    with assms(4) show "- int (length (?h1 ! ?a)) \<le> key \<and> key < int (length (?h1 ! ?a))"
      by simp
  qed
  from set_counts_succeeds[OF this] obtain h2 where
    h2: "set_counts ?h1 ?a (Counter (heap st ! opinions st)) = Inr h2"
    by blast
  from set_counts_frame[OF h2] have len: "length (h2 ! ?a) = nat S" by simp
  from True assms(2) have "k_c st < length (opinion_counts_store st)"
    and "k_c st < length (time_c st)"
    by (simp_all add: slots_ok_def)
  with True assms(4) h2 len assms(3) show ?thesis
    by (simp add: record_counts_def np_zeros_def alloc_def assign_column_def np_set_def)
qed

lemma record_counts_pop_idx:
  assumes "record_counts S J lsc t st = Next st'" and "pop_idx S' J st"
  shows "pop_idx S' J st'"
proof -
  from record_counts_Next[OF assms(1)] show ?thesis
  proof
    assume "st' = st"
    with assms(2) show ?thesis by simp
  next
    assume "k_c st < length lsc \<and> k_c st < length (opinion_counts_store st) \<and>
          k_c st < length (time_c st) \<and> 0 \<le> S \<and>
          (\<exists>h2 tm.
             set_counts (heap st @ [replicate (nat S) 0]) (length (heap st))
               (Counter (heap st ! opinions st)) = Inr h2 \<and>
             st' = st\<lparr>heap := h2, opinion_counts := length (heap st),
                       opinion_counts_store :=
                         (opinion_counts_store st)[k_c st := h2 ! length (heap st)],
                       time_c := (time_c st)[k_c st := tm], k_c := k_c st + 1\<rparr>)"
    then obtain h2 tm where
      h2: "set_counts (heap st @ [replicate (nat S) 0]) (length (heap st))
               (Counter (heap st ! opinions st)) = Inr h2"
      and st': "st' = st\<lparr>heap := h2, opinion_counts := length (heap st),
                       opinion_counts_store :=
                         (opinion_counts_store st)[k_c st := h2 ! length (heap st)],
                       time_c := (time_c st)[k_c st := tm], k_c := k_c st + 1\<rparr>"
      by blast
    from assms(2) have p: "opinions st < length (heap st)" by (simp add: pop_idx_def)
    from set_counts_frame[OF h2] p
    have "length h2 = length (heap st) + 1" and "h2 ! opinions st = heap st ! opinions st"
      by (simp_all add: nth_append)
    with assms(2) st' show ?thesis by (simp add: pop_idx_def)
  qed
qed

lemma record_counts_frame:
  assumes "record_counts S J lsc t st = Next st'" and "n \<le> length (heap st)"
  shows "take n (heap st') = take n (heap st) \<and> opinions st' = opinions st \<and>
         length (heap st) \<le> length (heap st')"
proof -
  from record_counts_Next[OF assms(1)] show ?thesis
  proof
    assume "st' = st"
    then show ?thesis by simp
  next
    assume "k_c st < length lsc \<and> k_c st < length (opinion_counts_store st) \<and>
          k_c st < length (time_c st) \<and> 0 \<le> S \<and>
          (\<exists>h2 tm.
             set_counts (heap st @ [replicate (nat S) 0]) (length (heap st))
               (Counter (heap st ! opinions st)) = Inr h2 \<and>
             st' = st\<lparr>heap := h2, opinion_counts := length (heap st),
                       opinion_counts_store :=
                         (opinion_counts_store st)[k_c st := h2 ! length (heap st)],
                       time_c := (time_c st)[k_c st := tm], k_c := k_c st + 1\<rparr>)"
    then obtain h2 tm where
      h2: "set_counts (heap st @ [replicate (nat S) 0]) (length (heap st))
               (Counter (heap st ! opinions st)) = Inr h2"
      and st': "st' = st\<lparr>heap := h2, opinion_counts := length (heap st),
                       opinion_counts_store :=
                         (opinion_counts_store st)[k_c st := h2 ! length (heap st)],
                       time_c := (time_c st)[k_c st := tm], k_c := k_c st + 1\<rparr>"
      by blast
    from set_counts_take[OF h2 assms(2)] assms(2)
    have "take n h2 = take n (heap st)" by simp
    moreover from set_counts_frame[OF h2] have "length h2 = length (heap st) + 1" by simp
    ultimately show ?thesis using st' by simp
  qed
qed

lemma written_ok_extend:
  assumes "written_ok m J store n" and "n < length store" and "good_column J col"
  shows "written_ok m J (store[n := col]) (n + 1)"
  using assms by (auto simp: written_ok_def list_all_iff nth_list_update)

subsection \<open>One step and the loop\<close>

lemma and_then_Next: "and_then r f = Next st' \<Longrightarrow> \<exists>st. r = Next st \<and> f st = Next st'"
  by (cases r) (simp_all add: and_then_def)

lemma and_then_Return:
  "and_then r f = Return out h \<Longrightarrow> r = Return out h \<or> (\<exists>st. r = Next st \<and> f st = Return out h)"
  by (cases r) (simp_all add: and_then_def)

lemma and_then_Raise:
  "and_then r f = Raise e \<Longrightarrow> r = Raise e \<or> (\<exists>st. r = Next st \<and> f st = Raise e)"
  by (cases r) (simp_all add: and_then_def)

lemma step_Next:
  assumes "step S J nu ls lsc st t = Next st'"
  shows "\<exists>st1 st2 st3. update_opinions S J nu st = Inr st1 \<and>
           record_richness J nu ls t st1 = Next st2 \<and>
           record_counts S J lsc t st2 = Next st3 \<and> drop_trailing ls st3 = Next st'"
proof -
  from assms obtain st1 where u: "update_opinions S J nu st = Inr st1"
    by (auto simp: step_def split: sum.splits)
  with assms have "and_then (and_then (record_richness J nu ls t st1)
                     (record_counts S J lsc t)) (drop_trailing ls) = Next st'"
    by (simp add: step_def)
  from and_then_Next[OF this] obtain st3 where
    a: "and_then (record_richness J nu ls t st1) (record_counts S J lsc t) = Next st3"
    and d: "drop_trailing ls st3 = Next st'"
    by blast
  from and_then_Next[OF a] u d show ?thesis by blast
qed

lemma step_Return:
  assumes "step S J nu ls lsc st t = Return out h"
  shows "\<exists>st1. update_opinions S J nu st = Inr st1 \<and>
           record_richness J nu ls t st1 = Return out h"
proof -
  from assms obtain st1 where u: "update_opinions S J nu st = Inr st1"
    by (auto simp: step_def split: sum.splits)
  with assms have "and_then (and_then (record_richness J nu ls t st1)
                     (record_counts S J lsc t)) (drop_trailing ls) = Return out h"
    by (simp add: step_def)
  from and_then_Return[OF this] drop_trailing_flow
  have "and_then (record_richness J nu ls t st1) (record_counts S J lsc t) = Return out h"
    by blast
  from and_then_Return[OF this] record_counts_flow u show ?thesis by blast
qed

lemma step_Raise:
  assumes "step S J nu ls lsc st t = Raise e"
  shows "update_opinions S J nu st = Inl e \<or>
         (\<exists>st1. update_opinions S J nu st = Inr st1 \<and>
            (record_richness J nu ls t st1 = Raise e \<or>
             (\<exists>st2. record_richness J nu ls t st1 = Next st2 \<and>
                (record_counts S J lsc t st2 = Raise e \<or>
                 (\<exists>st3. record_counts S J lsc t st2 = Next st3 \<and>
                    drop_trailing ls st3 = Raise e)))))"
proof (cases "update_opinions S J nu st")
  case (Inl e')
  with assms show ?thesis by (simp add: step_def)
next
  case (Inr st1)
  with assms have "and_then (and_then (record_richness J nu ls t st1)
                     (record_counts S J lsc t)) (drop_trailing ls) = Raise e"
    by (simp add: step_def)
  from and_then_Raise[OF this] Inr show ?thesis
    by (auto dest: and_then_Raise and_then_Next)
qed

lemma update_opinions_frame:
  assumes "update_opinions S J nu st = Inr st'" and "n \<le> opinions st"
  shows "take n (heap st') = take n (heap st) \<and> opinions st' = opinions st \<and>
         length (heap st') = length (heap st)"
  using update_opinions_shape[OF assms(1)] assms(2) by auto

lemma record_richness_frame:
  assumes "record_richness J nu ls t st = Next st'"
  shows "heap st' = heap st \<and> opinions st' = opinions st \<and>
         opinion_counts_store st' = opinion_counts_store st \<and> k_c st' = k_c st \<and>
         time_c st' = time_c st"
  using record_richness_Next[OF assms] by auto

lemma drop_trailing_frame:
  assumes "drop_trailing ls st = Next st'"
  shows "heap st' = heap st \<and> opinions st' = opinions st \<and>
         opinion_counts_store st' = opinion_counts_store st \<and> k_c st' = k_c st \<and>
         time_c st' = time_c st"
  using drop_trailing_Next[OF assms] by auto

lemma step_frame_Next:
  assumes "step S J nu ls lsc st t = Next st'"
    and "n \<le> opinions st" and "n \<le> length (heap st)"
  shows "take n (heap st') = take n (heap st) \<and> opinions st' = opinions st \<and>
         n \<le> length (heap st')"
proof -
  from step_Next[OF assms(1)] obtain st1 st2 st3 where
    u: "update_opinions S J nu st = Inr st1"
    and r: "record_richness J nu ls t st1 = Next st2"
    and c: "record_counts S J lsc t st2 = Next st3"
    and d: "drop_trailing ls st3 = Next st'"
    by blast
  from update_opinions_frame[OF u assms(2)] record_richness_frame[OF r] assms(3)
  have 2: "take n (heap st2) = take n (heap st)" "opinions st2 = opinions st"
    "n \<le> length (heap st2)"
    by simp_all
  from record_counts_frame[OF c 2(3)] 2 drop_trailing_frame[OF d] show ?thesis by simp
qed

lemma step_frame_Return:
  assumes "step S J nu ls lsc st t = Return out h" and "n \<le> opinions st"
  shows "take n h = take n (heap st)"
proof -
  from step_Return[OF assms(1)] obtain st1 where
    u: "update_opinions S J nu st = Inr st1"
    and r: "record_richness J nu ls t st1 = Return out h"
    by blast
  from update_opinions_frame[OF u assms(2)] record_richness_Return[OF r]
  show ?thesis by simp
qed

lemma run_steps_frame:
  assumes "n \<le> opinions st" and "n \<le> length (heap st)"
  shows "(run_steps S J nu ls lsc st ts = Next st' \<longrightarrow> take n (heap st') = take n (heap st)) \<and>
         (run_steps S J nu ls lsc st ts = Return out h \<longrightarrow> take n h = take n (heap st))"
  using assms
proof (induction ts arbitrary: st)
  case Nil
  then show ?case by simp
next
  case (Cons t ts)
  show ?case
  proof (cases "step S J nu ls lsc st t")
    case (Raise e)
    then show ?thesis by (simp add: and_then_def)
  next
    case (Return out' h')
    with step_frame_Return[OF Return Cons.prems(1)] show ?thesis
      by (auto simp: and_then_def)
  next
    case (Next st1)
    from step_frame_Next[OF Next Cons.prems] Cons.prems
    have 1: "take n (heap st1) = take n (heap st)" "n \<le> opinions st1"
      "n \<le> length (heap st1)"
      by simp_all
    from Cons.IH[OF 1(2,3)] 1(1) Next show ?thesis by (simp add: and_then_def)
  qed
qed

lemma record_counts_inv:
  assumes "record_counts S J lsc t st = Next st'" and "run_inv m S J st"
  shows "run_inv m S J st'"
proof -
  from assms(2) have pop: "pop_ok S J st"
    and dk: "dtype_keeps (pop_dtype st) S"
    and wr: "written_ok m J (opinion_counts_store st) (k_c st)"
    and tc: "length (time_c st) = length (opinion_counts_store st)"
    by (simp_all add: run_inv_def)
  from record_counts_Next[OF assms(1)] show ?thesis
  proof
    assume "st' = st"
    with assms(2) show ?thesis by simp
  next
    assume "k_c st < length lsc \<and> k_c st < length (opinion_counts_store st) \<and>
          k_c st < length (time_c st) \<and> 0 \<le> S \<and>
          (\<exists>h2 tm.
             set_counts (heap st @ [replicate (nat S) 0]) (length (heap st))
               (Counter (heap st ! opinions st)) = Inr h2 \<and>
             st' = st\<lparr>heap := h2, opinion_counts := length (heap st),
                       opinion_counts_store :=
                         (opinion_counts_store st)[k_c st := h2 ! length (heap st)],
                       time_c := (time_c st)[k_c st := tm], k_c := k_c st + 1\<rparr>)"
    then obtain h2 tm where
      g: "k_c st < length (opinion_counts_store st)" "0 \<le> S"
      and h2: "set_counts (heap st @ [replicate (nat S) 0]) (length (heap st))
               (Counter (heap st ! opinions st)) = Inr h2"
      and st': "st' = st\<lparr>heap := h2, opinion_counts := length (heap st),
                       opinion_counts_store :=
                         (opinion_counts_store st)[k_c st := h2 ! length (heap st)],
                       time_c := (time_c st)[k_c st := tm], k_c := k_c st + 1\<rparr>"
      by blast
    from pop have lab: "labels_in S (heap st ! opinions st)"
      and p: "opinions st < length (heap st)"
      and len: "int (length (heap st ! opinions st)) = J"
      by (simp_all add: pop_ok_def)
    from snapshot_counts[OF lab g(2), of "heap st"] h2 len
    have col: "good_column J (h2 ! length (heap st))"
      by (simp add: good_column_def)
    from set_counts_frame[OF h2] p
    have "length h2 = length (heap st) + 1" and "h2 ! opinions st = heap st ! opinions st"
      by (simp_all add: nth_append)
    with pop st' have pop': "pop_ok S J st'" by (simp add: pop_ok_def)
    from written_ok_extend[OF wr g(1) col] st'
    have "written_ok m J (opinion_counts_store st') (k_c st')" by simp
    with pop' dk tc st' show ?thesis by (simp add: run_inv_def)
  qed
qed

lemma record_counts_slots_ok:
  assumes "record_counts S J lsc t st = Next st'" and "slots_ok L Lc st"
  shows "slots_ok L Lc st'"
  using record_counts_Next[OF assms(1)] assms(2) by (auto simp: slots_ok_def)

lemma update_opinions_inv:
  assumes "update_opinions S J nu st = Inr st'"
  shows "(run_inv m S J st \<longrightarrow> run_inv m S J st') \<and> (slots_ok L Lc st \<longrightarrow> slots_ok L Lc st')"
proof -
  from update_opinions_fields[OF assms] obtain hp g where
    st': "st' = st\<lparr>heap := hp, rng := g\<rparr>"
    by blast
  have "pop_ok S J st \<and> dtype_keeps (pop_dtype st) S \<longrightarrow> pop_ok S J st'"
    using update_opinions_pop_ok[OF assms] by blast
  with st' show ?thesis by (auto simp: run_inv_def slots_ok_def)
qed

lemma record_richness_inv:
  assumes "record_richness J nu ls t st = Next st'"
  shows "(run_inv m S J st \<longrightarrow> run_inv m S J st') \<and> (pop_idx S J st \<longrightarrow> pop_idx S J st')"
  using record_richness_Next[OF assms] by (auto simp: run_inv_def pop_ok_def pop_idx_def)

lemma drop_trailing_inv:
  assumes "drop_trailing ls st = Next st'"
  shows "(run_inv m S J st \<longrightarrow> run_inv m S J st') \<and> (pop_idx S J st \<longrightarrow> pop_idx S J st')"
  using drop_trailing_Next[OF assms] by (auto simp: run_inv_def pop_ok_def pop_idx_def)

lemma step_inv_Next:
  assumes "step S J nu ls lsc st t = Next st'"
  shows "(run_inv m S J st \<longrightarrow> run_inv m S J st') \<and>
         (slots_ok (length ls) Lc st \<longrightarrow> slots_ok (length ls) Lc st') \<and>
         (pop_idx S J st \<longrightarrow> pop_idx S J st')"
proof -
  from step_Next[OF assms(1)] obtain st1 st2 st3 where
    u: "update_opinions S J nu st = Inr st1"
    and r: "record_richness J nu ls t st1 = Next st2"
    and c: "record_counts S J lsc t st2 = Next st3"
    and d: "drop_trailing ls st3 = Next st'"
    by blast
  have "run_inv m S J st \<longrightarrow> run_inv m S J st'"
    using update_opinions_inv[OF u, of m "length ls" Lc] record_richness_inv[OF r, of m S]
      record_counts_inv[OF c] drop_trailing_inv[OF d, of m S J]
    by blast
  moreover have "slots_ok (length ls) Lc st \<longrightarrow> slots_ok (length ls) Lc st'"
    using update_opinions_inv[OF u, of m "length ls" Lc] record_richness_slots_ok[OF r]
      record_counts_slots_ok[OF c] drop_trailing_slots_ok[OF d]
    by blast
  moreover have "pop_idx S J st \<longrightarrow> pop_idx S J st'"
    using update_opinions_pop_idx[OF u] record_richness_inv[OF r, of m S]
      record_counts_pop_idx[OF c] drop_trailing_inv[OF d, of m S J]
    by blast
  ultimately show ?thesis by blast
qed


lemma step_no_raise:
  assumes "pop_idx S J st" and "slots_ok (length ls) (length lsc) st" and "1 \<le> J"
    and "0 < S"
  shows "step S J nu ls lsc st t \<noteq> Raise e"
proof
  assume raise: "step S J nu ls lsc st t = Raise e"
  from update_opinions_succeeds[OF assms(1,3,4)] obtain st1 where
    u: "update_opinions S J nu st = Inr st1" by blast
  from update_opinions_pop_idx[OF u assms(1)] have pop1: "pop_idx S J st1" .
  from update_opinions_inv[OF u, of 0 "length ls" "length lsc"] assms(2)
  have sl1: "slots_ok (length ls) (length lsc) st1" by blast
  from assms(3) have "J \<noteq> 0" by simp
  from record_richness_no_raise[OF sl1 this]
  have no1: "record_richness J nu ls t st1 \<noteq> Raise e" .
  from assms(4) have S: "0 \<le> S" by simp
  {
    fix st2 assume r: "record_richness J nu ls t st1 = Next st2"
    from record_richness_inv[OF r, of 0 S] pop1 have pop2: "pop_idx S J st2" by blast
    from record_richness_slots_ok[OF r sl1]
    have sl2: "slots_ok (length ls) (length lsc) st2" .
    from record_counts_no_raise[OF pop2 sl2 assms(3) S]
    have no2: "record_counts S J lsc t st2 \<noteq> Raise e" .
    {
      fix st3 assume c: "record_counts S J lsc t st2 = Next st3"
      from record_counts_slots_ok[OF c sl2]
      have "slots_ok (length ls) (length lsc) st3" .
      from drop_trailing_no_raise[OF this]
      have "drop_trailing ls st3 \<noteq> Raise e" .
    }
    with no2 have "record_counts S J lsc t st2 \<noteq> Raise e \<and>
      (\<forall>st3. record_counts S J lsc t st2 = Next st3 \<longrightarrow> drop_trailing ls st3 \<noteq> Raise e)"
      by blast
  }
  with step_Raise[OF raise] u no1 show False by auto
qed


lemma run_steps_no_raise:
  assumes "pop_idx S J st" and "slots_ok (length ls) (length lsc) st" and "1 \<le> J"
    and "0 < S"
  shows "run_steps S J nu ls lsc st ts \<noteq> Raise e"
  using assms(1,2)
proof (induction ts arbitrary: st)
  case Nil
  then show ?case by simp
next
  case (Cons t ts)
  show ?case
  proof (cases "step S J nu ls lsc st t")
    case (Raise e')
    with step_no_raise[OF Cons.prems assms(3,4)] show ?thesis by simp
  next
    case (Return out h)
    then show ?thesis by (simp add: and_then_def)
  next
    case (Next st1)
    from step_inv_Next[OF Next, of 0 "length lsc"] Cons.prems
    have "pop_idx S J st1" "slots_ok (length ls) (length lsc) st1" by blast+
    from Cons.IH[OF this] Next show ?thesis by (simp add: and_then_def)
  qed
qed

subsection \<open>Initialisation\<close>

lemma rng_integers_size_props:
  "0 < high \<Longrightarrow> rng_integers_size g high n = (xs, g') \<Longrightarrow>
   length xs = n \<and> labels_in high xs"
proof (induction n arbitrary: g xs g')
  case 0
  then show ?case by (simp add: labels_in_def)
next
  case (Suc n)
  obtain ys g1 where r: "rng_integers_size (rng_next g) high n = (ys, g1)"
    by (cases "rng_integers_size (rng_next g) high n")
  from Suc.IH[OF Suc.prems(1) r] Suc.prems r show ?case
    by (auto simp: labels_in_def)
qed

lemma init_opinions_frame:
  "init_opinions h g S J IC = Inr (p, h2, g1) \<Longrightarrow>
   length h \<le> p \<and> p < length h2 \<and> take (length h) h2 = h"
  by (auto simp: init_opinions_def alloc_def split: option.splits sum.splits prod.splits)

lemma init_opinions_labels:
  assumes "init_opinions h g S J IC = Inr (p, h2, g1)"
    and "case IC of None \<Rightarrow> True | Some a \<Rightarrow> labels_in S (h ! a)"
  shows "labels_in S (h2 ! p)"
proof (cases IC)
  case None
  with assms(1) obtain xs where
    xs: "rng_integers_array g S J = Inr (xs, g1)" and h2: "h2 = (h @ [xs]) @ [xs]"
    and p: "p = length h + 1"
    by (auto simp: init_opinions_def alloc_def split: sum.splits prod.splits)
  from xs have "labels_in S xs"
    by (auto simp: rng_integers_array_def labels_in_def split: if_splits
        dest: rng_integers_size_props[rotated])
  with h2 p show ?thesis by (simp add: nth_append)
next
  case (Some a)
  with assms(1) have "h2 = (h @ [h ! a]) @ [h ! a]" and "p = length h + 1"
    by (auto simp: init_opinions_def alloc_def split: sum.splits prod.splits)
  with assms(2) Some show ?thesis by (simp add: nth_append)
qed

lemma init_opinions_valid:
  assumes "valid_IC h S J IC"
  shows "\<exists>p h2 g1. init_opinions h g S J IC = Inr (p, h2, g1) \<and>
           int (length (h2 ! p)) = J"
proof (cases IC)
  case None
  with assms have S: "1 \<le> S" and J: "0 \<le> J" by (simp_all add: valid_IC_def)
  obtain xs g1 where r: "rng_integers_size g S (nat J) = (xs, g1)"
    by (cases "rng_integers_size g S (nat J)")
  from S have "0 < S" by simp
  from rng_integers_size_props[OF this r] have len: "length xs = nat J" by simp
  show ?thesis
  proof (cases "J = 0")
    case True
    with None show ?thesis
      by (simp add: init_opinions_def rng_integers_array_def alloc_def nth_append)
  next
    case False
    with None S J r len show ?thesis
      by (simp add: init_opinions_def rng_integers_array_def alloc_def nth_append)
  qed
next
  case (Some a)
  with assms show ?thesis
    by (simp add: init_opinions_def valid_IC_def alloc_def nth_append)
qed

lemma init_counts_frame:
  assumes "init_counts h S p oc = Inr (c, h')"
  shows "take (length h) h' = h \<and> length h \<le> length h' \<and>
         (p < length h \<longrightarrow> h' ! p = h ! p)"
proof (cases oc)
  case (Some c')
  with assms show ?thesis by (simp add: init_counts_def)
next
  case None
  with assms obtain z where z: "np_zeros S = Inr z"
    and t: "tally (h @ [z]) (length h) ((h @ [z]) ! p) = Inr h'"
    by (auto simp: init_counts_def alloc_def split: sum.splits)
  from tally_take[OF t, of "length h"] tally_frame[OF t] show ?thesis
    by (auto simp: nth_append)
qed

lemma init_counts_None:
  assumes "p < length h" and "labels_in S (h ! p)" and "0 \<le> S"
  shows "\<exists>c h'. init_counts h S p None = Inr (c, h') \<and> c < length h' \<and>
           length (h' ! c) = nat S \<and> sum_list (h' ! c) = int (length (h ! p)) \<and>
           list_all (\<lambda>x. 0 \<le> x) (h' ! c)"
proof -
  let ?z = "replicate (nat S) (0::int)"
  let ?h1 = "h @ [?z]"
  have 1: "length h < length ?h1" by simp
  have 2: "labels_in (int (length (?h1 ! length h))) (h ! p)"
    using assms(2,3) by simp
  have 3: "list_all (\<lambda>x. 0 \<le> x) (?h1 ! length h)" by (simp add: list_all_iff)
  from tally_sum[OF 1 2 3] obtain h' where
    t: "tally ?h1 (length h) (h ! p) = Inr h'"
    and s: "sum_list (h' ! length h) = int (length (h ! p))"
    and n: "list_all (\<lambda>x. 0 \<le> x) (h' ! length h)"
    by (auto simp: sum_list_replicate)
  from tally_frame[OF t] have "length h' = length h + 1" "length (h' ! length h) = nat S"
    by simp_all
  with t s n assms(1,3) show ?thesis
    by (simp add: init_counts_def np_zeros_def alloc_def nth_append)
qed

lemma init_outputs_shape:
  assumes "init_outputs h g d S ls lsc p c = Inr st"
  shows "heap st = h \<and> opinions st = p \<and> pop_dtype st = d \<and> k st = 1 \<and> k_c st = 1 \<and>
         length (opinion_counts_store st) = length lsc + 1 \<and>
         length (time_c st) = length lsc + 1 \<and>
         richness st = (replicate (length ls + 1) 0)
                         [0 := int (length (filter (\<lambda>x. 0 < x) (h ! c)))] \<and>
         time st = replicate (length ls + 1) 0 \<and>
         (length (h ! c) = nat S \<longrightarrow> opinion_counts_store st ! 0 = h ! c)"
  using assms
  by (auto simp: init_outputs_def assign_column_def split: if_splits)

lemma init_outputs_succeeds:
  "0 \<le> S \<Longrightarrow> length (h ! c) = nat S \<Longrightarrow> \<exists>st. init_outputs h g d S ls lsc p c = Inr st"
  by (simp add: init_outputs_def assign_column_def)

lemma init_state_parts:
  assumes "init_state h dts g S J ls lsc IC oc = Inr st"
  shows "\<exists>p h1 g1 c h2. init_opinions h g S J IC = Inr (p, h1, g1) \<and>
           init_counts h1 S p oc = Inr (c, h2) \<and>
           init_outputs h2 g1 (IC_dtype dts IC) S ls lsc p c = Inr st"
  using assms by (auto simp: init_state_def split: sum.splits)

lemma init_state_frame:
  assumes "init_state h dts g S J ls lsc IC oc = Inr st"
  shows "take (length h) (heap st) = h \<and> length h \<le> opinions st \<and>
         length h \<le> length (heap st) \<and> opinions st < length (heap st)"
proof -
  from init_state_parts[OF assms] obtain p h1 g1 c h2 where
    a: "init_opinions h g S J IC = Inr (p, h1, g1)"
    and b: "init_counts h1 S p oc = Inr (c, h2)"
    and d: "init_outputs h2 g1 (IC_dtype dts IC) S ls lsc p c = Inr st"
    by blast
  from init_opinions_frame[OF a] have 1: "length h \<le> p" "p < length h1"
    "take (length h) h1 = h" by simp_all
  from init_counts_frame[OF b] have 2: "take (length h1) h2 = h1" "length h1 \<le> length h2"
    by simp_all
  from 1 have "min (length h) (length h1) = length h" by simp
  then have "take (length h) (take (length h1) h2) = take (length h) h2"
    by (simp only: take_take)
  with 1(3) 2(1) have 3: "take (length h) h2 = h" by simp
  from init_outputs_shape[OF d] have "heap st = h2" "opinions st = p" by simp_all
  with 1 2 3 show ?thesis by simp
qed

lemma init_state_labels:
  assumes "init_state h dts g S J ls lsc IC oc = Inr st"
    and "case IC of None \<Rightarrow> True | Some a \<Rightarrow> labels_in S (h ! a)"
  shows "opinions st < length (heap st) \<and> labels_in S (heap st ! opinions st) \<and>
         pop_dtype st = IC_dtype dts IC"
proof -
  from init_state_parts[OF assms(1)] obtain p h1 g1 c h2 where
    a: "init_opinions h g S J IC = Inr (p, h1, g1)"
    and b: "init_counts h1 S p oc = Inr (c, h2)"
    and d: "init_outputs h2 g1 (IC_dtype dts IC) S ls lsc p c = Inr st"
    by blast
  from init_opinions_labels[OF a assms(2)] have lab: "labels_in S (h1 ! p)" .
  from init_opinions_frame[OF a] have p: "p < length h1" by simp
  from init_counts_frame[OF b] p have "h2 ! p = h1 ! p" "p < length h2" by simp_all
  with init_outputs_shape[OF d] lab show ?thesis by simp
qed

lemma init_state_pop_ok:
  assumes "init_state h dts g S J ls lsc IC oc = Inr st" and "valid_IC h S J IC"
  shows "pop_ok S J st"
proof -
  from init_state_parts[OF assms(1)] obtain p h1 g1 c h2 where
    a: "init_opinions h g S J IC = Inr (p, h1, g1)"
    and b: "init_counts h1 S p oc = Inr (c, h2)"
    and d: "init_outputs h2 g1 (IC_dtype dts IC) S ls lsc p c = Inr st"
    by blast
  from init_opinions_valid[OF assms(2), of g] a have len: "int (length (h1 ! p)) = J"
    by auto
  from assms(2) have "case IC of None \<Rightarrow> True | Some a \<Rightarrow> labels_in S (h ! a)"
    by (simp add: valid_IC_def split: option.splits)
  from init_state_labels[OF assms(1) this]
  have lab: "opinions st < length (heap st)" "labels_in S (heap st ! opinions st)"
    by simp_all
  from init_opinions_frame[OF a] have p: "p < length h1" by simp
  from init_counts_frame[OF b] p have "h2 ! p = h1 ! p" by simp
  with init_outputs_shape[OF d] len have "int (length (heap st ! opinions st)) = J"
    by simp
  with lab show ?thesis by (simp add: pop_ok_def)
qed

lemma init_state_counts:
  assumes "valid_IC h S J IC" and "valid_counts h S J oc" and "0 \<le> S"
  shows "\<exists>p h1 g1 c h2. init_opinions h g S J IC = Inr (p, h1, g1) \<and>
           init_counts h1 S p oc = Inr (c, h2) \<and>
           length (h2 ! c) = nat S \<and> good_column J (h2 ! c)"
proof -
  from init_opinions_valid[OF assms(1), of g] obtain p h1 g1 where
    a: "init_opinions h g S J IC = Inr (p, h1, g1)"
    and len: "int (length (h1 ! p)) = J"
    by blast
  from assms(1) have "case IC of None \<Rightarrow> True | Some a \<Rightarrow> labels_in S (h ! a)"
    by (simp add: valid_IC_def split: option.splits)
  from init_opinions_labels[OF a this] have lab: "labels_in S (h1 ! p)" .
  from init_opinions_frame[OF a] have p: "p < length h1" and t: "take (length h) h1 = h"
    by simp_all
  show ?thesis
  proof (cases oc)
    case None
    from init_counts_None[OF p lab assms(3)] len a None show ?thesis
      by (auto simp: good_column_def)
  next
    case (Some c)
    with assms(2) have c: "c < length h" "length (h ! c) = nat S" "good_column J (h ! c)"
      by (simp_all add: valid_counts_def)
    from c(1) have "take (length h) h1 ! c = h1 ! c" by simp
    with t have "h1 ! c = h ! c" by simp
    with a Some c show ?thesis by (simp add: init_counts_def)
  qed
qed


lemma init_state_succeeds:
  assumes "valid_IC h S J IC" and "valid_counts h S J oc" and "1 \<le> J"
  shows "\<exists>st. init_state h dts g S J ls lsc IC oc = Inr st \<and>
           slots_ok (length ls) (length lsc) st \<and> 0 < S"
proof -
  from init_opinions_valid[OF assms(1), of g] obtain p0 h0 g0 where
    a0: "init_opinions h g S J IC = Inr (p0, h0, g0)"
    and len: "int (length (h0 ! p0)) = J"
    by blast
  from assms(1) have "case IC of None \<Rightarrow> True | Some a \<Rightarrow> labels_in S (h ! a)"
    by (simp add: valid_IC_def split: option.splits)
  from init_opinions_labels[OF a0 this] have lab: "labels_in S (h0 ! p0)" .
  from len assms(3) lab have S: "0 < S"
    by (cases "h0 ! p0") (auto simp: labels_in_def)
  then have S0: "0 \<le> S" by simp
  from init_state_counts[OF assms(1,2) S0, of g] obtain p h1 g1 c h2 where
    a: "init_opinions h g S J IC = Inr (p, h1, g1)"
    and b: "init_counts h1 S p oc = Inr (c, h2)"
    and c: "length (h2 ! c) = nat S" "good_column J (h2 ! c)"
    by blast
  from init_outputs_succeeds[OF S0 c(1)] obtain st where
    d: "init_outputs h2 g1 (IC_dtype dts IC) S ls lsc p c = Inr st"
    by blast
  from c(2) assms(3) have "0 < sum_list (h2 ! c)" "list_all (\<lambda>x. 0 \<le> x) (h2 ! c)"
    by (simp_all add: good_column_def)
  from positive_entry[OF this(2,1)] have "filter (\<lambda>x. 0 < x) (h2 ! c) \<noteq> []" .
  with init_outputs_shape[OF d] have "slots_ok (length ls) (length lsc) st"
    by (simp add: slots_ok_def hd_conv_nth)
  with a b d S show ?thesis by (simp add: init_state_def)
qed

lemma record_counts_population:
  assumes "record_counts S J lsc t st = Next st'" and "opinions st < length (heap st)"
  shows "heap st' ! opinions st' = heap st ! opinions st \<and> opinions st' < length (heap st')"
proof -
  from record_counts_Next[OF assms(1)] show ?thesis
  proof
    assume "st' = st"
    with assms(2) show ?thesis by simp
  next
    assume "k_c st < length lsc \<and> k_c st < length (opinion_counts_store st) \<and>
          k_c st < length (time_c st) \<and> 0 \<le> S \<and>
          (\<exists>h2 tm.
             set_counts (heap st @ [replicate (nat S) 0]) (length (heap st))
               (Counter (heap st ! opinions st)) = Inr h2 \<and>
             st' = st\<lparr>heap := h2, opinion_counts := length (heap st),
                       opinion_counts_store :=
                         (opinion_counts_store st)[k_c st := h2 ! length (heap st)],
                       time_c := (time_c st)[k_c st := tm], k_c := k_c st + 1\<rparr>)"
    then obtain h2 tm where
      h2: "set_counts (heap st @ [replicate (nat S) 0]) (length (heap st))
               (Counter (heap st ! opinions st)) = Inr h2"
      and st': "st' = st\<lparr>heap := h2, opinion_counts := length (heap st),
                       opinion_counts_store :=
                         (opinion_counts_store st)[k_c st := h2 ! length (heap st)],
                       time_c := (time_c st)[k_c st := tm], k_c := k_c st + 1\<rparr>"
      by blast
    from set_counts_frame[OF h2] assms(2) st' show ?thesis
      by (simp add: nth_append)
  qed
qed

lemma step_dtype:
  assumes "step S J nu ls lsc st t = Next st'"
  shows "pop_dtype st' = pop_dtype st"
proof -
  from step_Next[OF assms(1)] obtain st1 st2 st3 where
    u: "update_opinions S J nu st = Inr st1"
    and r: "record_richness J nu ls t st1 = Next st2"
    and c: "record_counts S J lsc t st2 = Next st3"
    and d: "drop_trailing ls st3 = Next st'"
    by blast
  from update_opinions_fields[OF u] have "pop_dtype st1 = pop_dtype st" by auto
  moreover from record_richness_Next[OF r] have "pop_dtype st2 = pop_dtype st1" by auto
  moreover from record_counts_Next[OF c] have "pop_dtype st3 = pop_dtype st2" by auto
  moreover from drop_trailing_Next[OF d] have "pop_dtype st' = pop_dtype st3" by auto
  ultimately show ?thesis by simp
qed

lemma step_labels:
  assumes "step S J nu ls lsc st t = Next st'"
    and "opinions st < length (heap st)" and "labels_in S (heap st ! opinions st)"
    and "dtype_keeps (pop_dtype st) S"
  shows "opinions st' < length (heap st') \<and> labels_in S (heap st' ! opinions st')"
proof -
  from step_Next[OF assms(1)] obtain st1 st2 st3 where
    u: "update_opinions S J nu st = Inr st1"
    and r: "record_richness J nu ls t st1 = Next st2"
    and c: "record_counts S J lsc t st2 = Next st3"
    and d: "drop_trailing ls st3 = Next st'"
    by blast
  from update_opinions_labels[OF u assms(3,4)] update_opinions_frame[OF u, of 0] assms(2)
    record_richness_frame[OF r]
  have 2: "opinions st2 < length (heap st2)" "labels_in S (heap st2 ! opinions st2)"
    by simp_all
  from record_counts_population[OF c 2(1)] 2(2) drop_trailing_frame[OF d]
  show ?thesis by simp
qed

lemma run_steps_labels:
  assumes "run_steps S J nu ls lsc st ts = Next st'"
    and "opinions st < length (heap st)" and "labels_in S (heap st ! opinions st)"
    and "dtype_keeps (pop_dtype st) S"
  shows "labels_in S (heap st' ! opinions st') \<and> pop_dtype st' = pop_dtype st"
  using assms
proof (induction ts arbitrary: st)
  case Nil
  then show ?case by simp
next
  case (Cons t ts)
  from Cons.prems(1) obtain st1 where
    s: "step S J nu ls lsc st t = Next st1"
    and r: "run_steps S J nu ls lsc st1 ts = Next st'"
    by (auto dest: and_then_Next)
  from step_labels[OF s Cons.prems(2,3,4)] step_dtype[OF s] Cons.prems(4) Cons.IH[OF r]
  show ?case by simp
qed

subsection \<open>The schedule\<close>

lemma np_round_bounds:
  "of_int a \<le> x \<Longrightarrow> a \<le> np_round x" "x \<le> of_int b \<Longrightarrow> np_round x \<le> b"
proof -
  assume "of_int a \<le> x"
  then have "a \<le> \<lfloor>x\<rfloor>" by (simp add: le_floor_iff)
  then show "a \<le> np_round x" by (auto simp: np_round_def Let_def)
next
  assume b: "x \<le> of_int b"
  show "np_round x \<le> b"
  proof (cases "x = of_int b")
    case True
    then show ?thesis by (simp add: np_round_def Let_def)
  next
    case False
    with b have "x < of_int b" by simp
    then have "\<lfloor>x\<rfloor> < b" by (simp add: floor_less_iff)
    then show ?thesis by (auto simp: np_round_def Let_def)
  qed
qed

text \<open>
  Whatever values \<^verbatim>\<open>np.logspace\<close> returns, the schedule is strictly increasing, without
  duplicates and no longer than the number of points requested.
\<close>

theorem log_schedule_ordered:
  "sorted_wrt (<) (log_schedule lsp) \<and> distinct (log_schedule lsp) \<and>
   length (log_schedule lsp) \<le> length lsp"
proof -
  have "length (remdups (map np_round lsp)) \<le> length (map np_round lsp)"
    by (rule length_remdups_leq)
  then show ?thesis
    by (simp add: log_schedule_def np_unique_def strict_sorted_iff)
qed

text \<open>
  If the values returned by \<^verbatim>\<open>np.logspace\<close> lie in \<open>[J, J * T]\<close>, so do the entries of
  the schedule.
\<close>

theorem log_schedule_range:
  assumes "list_all (\<lambda>x. of_int J \<le> x \<and> x \<le> of_int (J * T)) lsp"
  shows "list_all (\<lambda>t. J \<le> t \<and> t \<le> J * T) (log_schedule lsp)"
  using assms
  by (auto simp: log_schedule_def np_unique_def list_all_iff np_round_bounds)

theorem log_schedule_range_witness:
  "list_all (\<lambda>x. of_int 2 \<le> x \<and> x \<le> of_int (2 * 3)) [2, 7 / 2, 6 :: rat] \<and>
   log_schedule [2, 7 / 2, 6] = [2, 4, 6] \<and>
   list_all (\<lambda>t. (2::int) \<le> t \<and> t \<le> 2 * 3) (log_schedule [2, 7 / 2, 6])"
proof -
  have a: "list_all (\<lambda>x. of_int 2 \<le> x \<and> x \<le> of_int (2 * 3)) [2, 7 / 2, 6 :: rat]"
    by simp
  have b: "log_schedule [2, 7 / 2, 6] = [2, 4, 6]" by code_simp
  from log_schedule_range[OF a] a b show ?thesis by blast
qed

subsection \<open>The counters of the snapshots\<close>

lemma step_counters:
  assumes "step S J nu ls lsc st t = Next st'"
    and "k st \<le> max 1 (length ls)" and "k_c st \<le> max 1 (length lsc)"
  shows "k st' \<le> max 1 (length ls) \<and> k_c st' \<le> max 1 (length lsc)"
proof -
  from step_Next[OF assms(1)] obtain st1 st2 st3 where
    u: "update_opinions S J nu st = Inr st1"
    and r: "record_richness J nu ls t st1 = Next st2"
    and c: "record_counts S J lsc t st2 = Next st3"
    and d: "drop_trailing ls st3 = Next st'"
    by blast
  from update_opinions_shape[OF u] have k1: "k st1 = k st" and c1: "k_c st1 = k_c st"
    by auto
  from record_richness_Next[OF r] k1 assms(2)
  have k2: "k st2 \<le> max 1 (length ls)" by auto
  from record_richness_frame[OF r] c1 have c2: "k_c st2 = k_c st" by simp
  from record_counts_Next[OF c] k2 have k3: "k st3 \<le> max 1 (length ls)" by auto
  from record_counts_Next[OF c] c2 assms(3)
  have c3: "k_c st3 \<le> max 1 (length lsc)" by auto
  from drop_trailing_Next[OF d] k3 c3 show ?thesis by auto
qed

lemma run_steps_counters:
  assumes "run_steps S J nu ls lsc st ts = Next st'"
    and "k st \<le> max 1 (length ls)" and "k_c st \<le> max 1 (length lsc)"
  shows "k st' \<le> max 1 (length ls) \<and> k_c st' \<le> max 1 (length lsc)"
  using assms
proof (induction ts arbitrary: st)
  case Nil
  then show ?case by simp
next
  case (Cons t ts)
  from Cons.prems(1) obtain st1 where
    s: "step S J nu ls lsc st t = Next st1"
    and r: "run_steps S J nu ls lsc st1 ts = Next st'"
    by (auto dest: and_then_Next)
  from step_counters[OF s Cons.prems(2,3)] Cons.IH[OF r] show ?case by blast
qed

text \<open>
  The slots written are \<open>1, ..., k - 1\<close> for the richness and \<open>1, ..., k_c - 1\<close> for the
  abundances. In a run that reaches the end of the loop, \<open>k\<close> and \<open>k_c\<close> do not exceed the
  length of their schedule: of the entries of a schedule, at least one is left without a
  snapshot.
\<close>

theorem snapshots_one_short:
  assumes "voter_run h dts fresh S J T nu lsp lsp_c IC oc gen = Next st"
  shows "k st \<le> max 1 (length (log_schedule lsp)) \<and>
         k_c st \<le> max 1 (length (log_schedule lsp_c))"
proof -
  let ?g = "case gen of None \<Rightarrow> fresh | Some g \<Rightarrow> g"
  let ?ls = "log_schedule lsp" and ?lsc = "log_schedule lsp_c"
  from assms obtain st0 where
    i: "init_state h dts ?g S J ?ls ?lsc IC oc = Inr st0"
    and r: "run_steps S J nu ?ls ?lsc st0 [1..T * J] = Next st"
    by (auto simp: voter_run_def split: sum.splits)
  from init_state_parts[OF i] obtain p h1 g1 c h2 where
    "init_outputs h2 g1 (IC_dtype dts IC) S ?ls ?lsc p c = Inr st0"
    by blast
  from init_outputs_shape[OF this] have "k st0 = 1" "k_c st0 = 1" by simp_all
  then have "k st0 \<le> max 1 (length ?ls)" "k_c st0 \<le> max 1 (length ?lsc)" by simp_all
  from run_steps_counters[OF r this] show ?thesis .
qed

theorem snapshots_one_short_witness:
  "\<exists>st. voter_run [[0]] [Int64] (\<lambda>n. 0) 1 1 2 (1 / 2) [1, 2] [1, 2] (Some 0) None
          (Some (\<lambda>n. 0)) = Next st \<and>
        k st = 2 \<and> k_c st = 2 \<and> length (log_schedule [1, 2]) = 2 \<and>
        k st \<le> max 1 (length (log_schedule [1, 2])) \<and>
        k_c st \<le> max 1 (length (log_schedule [1, 2]))"
proof -
  have "case voter_run [[0]] [Int64] (\<lambda>n. 0) 1 1 2 (1 / 2) [1, 2] [1, 2] (Some 0) None
               (Some (\<lambda>n. 0)) of
          Next st \<Rightarrow> k st = 2 \<and> k_c st = 2 | _ \<Rightarrow> False"
    by code_simp
  then obtain st where
    r: "voter_run [[0]] [Int64] (\<lambda>n. 0) 1 1 2 (1 / 2) [1, 2] [1, 2] (Some 0) None
          (Some (\<lambda>n. 0)) = Next st"
    and s: "k st = 2" "k_c st = 2"
    by (auto split: flow.splits)
  have l: "length (log_schedule [1, 2]) = 2" by code_simp
  from snapshots_one_short[OF r] r s l show ?thesis by blast
qed

section \<open>The claims\<close>

text \<open>
  C1. With \<open>S = 1\<close>, \<open>J = 1\<close>, \<open>T = 2\<close>, \<open>nu = 1/2\<close> and two points requested for each
  schedule, both schedules are \<open>[1, 2]\<close>. The run does not end early, and the last entry
  \<open>t = 2 = J * T\<close> gets no slot: the richness has slot 0 and the slot of \<open>t = 1\<close> only, and
  the last column of the abundance table and its time are still the zeros of the
  allocation.
\<close>

theorem final_entry_not_recorded:
  "log_schedule [1, 2] = [1, 2] \<and>
   voter_model [[0]] [Int64] (\<lambda>n. 0) 1 1 2 (1 / 2) [1, 2] [1, 2] (Some 0) None
     (Some (\<lambda>n. 0)) =
     Inr (([[1], [1], [0]], [1, 1], [0, 1], [0, 1, 0]), [[0], [0], [0], [1], [1]])"
  by code_simp

text \<open>
  C2. The same run with \<open>nu = 0\<close> reaches the checkpoint \<open>t = 1\<close> with richness 1 and
  returns there. The richness and both time arrays are cut to the slots filled, the
  abundance table is returned whole: three columns, of which only column 0 was written.
\<close>

theorem early_return_table_not_truncated:
  "voter_model [[0]] [Int64] (\<lambda>n. 0) 1 1 2 0 [1, 2] [1, 2] (Some 0) None (Some (\<lambda>n. 0)) =
     Inr (([[1], [0], [0]], [1, 1], [0, 1], [0]), [[0], [0], [0], [1]])"
  by code_simp

text \<open>
  C3. With one point requested the richness schedule is \<open>[J]\<close>, here \<open>[1]\<close>. No snapshot
  is taken at step \<open>J\<close>, and the returned richness has length 1: slot 0 alone.
\<close>

theorem single_point_schedule_length:
  "log_schedule [1] = [1] \<and>
   voter_model [[0]] [Int64] (\<lambda>n. 0) 1 1 3 (1 / 2) [1] [1] (Some 0) None (Some (\<lambda>n. 0)) =
     Inr (([[1], [0]], [1], [0], [0, 0]), [[0], [0], [0], [1]])"
  by code_simp




text \<open>
  C5. \<^verbatim>\<open>voter_model\<close> checks none of its arguments. With \<open>nu = 2\<close> the call returns its
  outputs; with an initial condition of length 1 and \<open>J = 2\<close> the initialisation succeeds
  and the IndexError is raised inside the loop.
\<close>

theorem no_validation_counterexample:
  "voter_model [[0]] [Int64] (\<lambda>n. 0) 1 1 1 2 [1] [1] (Some 0) None (Some (\<lambda>n. 0)) =
     Inr (([[1], [0]], [1], [0], [0, 0]), [[0], [0], [0], [1]]) \<and>
   (case init_state [[0]] [Int64] (\<lambda>n. 1) 1 2 (log_schedule [2]) (log_schedule [2])
           (Some 0) None of
      Inl e \<Rightarrow> False | Inr st \<Rightarrow> True) \<and>
   voter_model [[0]] [Int64] (\<lambda>n. 1) 1 2 1 0 [2] [2] (Some 0) None (Some (\<lambda>n. 1)) =
     Inl IndexError"
  by code_simp

text \<open>
  C5, as amended. \<^verbatim>\<open>voter_model\<close> validates nothing, and \<open>T\<close> and \<open>nu\<close> are never
  checked: with \<open>J \<ge> 1\<close>, a valid initial condition (given with length \<open>J\<close> and labels in
  \<open>[0, S)\<close>, or drawn with \<open>S \<ge> 1\<close>) and no \<open>opinion_counts\<close>, the call returns its four
  outputs and raises nothing, for every \<open>T\<close>, every \<open>nu\<close>, every schedule and every dtype
  of the array of the initial condition.
\<close>

theorem voter_model_returns:
  assumes "valid_IC h S J IC" and "1 \<le> J"
  shows "\<exists>out h'. voter_model h dts fresh S J T nu lsp lsp_c IC None gen = Inr (out, h')"
proof -
  let ?g = "case gen of None \<Rightarrow> fresh | Some g \<Rightarrow> g"
  let ?ls = "log_schedule lsp" and ?lsc = "log_schedule lsp_c"
  have "valid_counts h S J None" by (simp add: valid_counts_def)
  from init_state_succeeds[OF assms(1) this assms(2), of dts ?g ?ls ?lsc] obtain st0 where
    i: "init_state h dts ?g S J ?ls ?lsc IC None = Inr st0"
    and sl: "slots_ok (length ?ls) (length ?lsc) st0" and S: "0 < S"
    by blast
  from init_state_pop_ok[OF i assms(1)] have "pop_idx S J st0" by (rule pop_ok_idx)
  then have "run_steps S J nu ?ls ?lsc st0 [1..T * J] \<noteq> Raise e" for e
    using run_steps_no_raise[OF _ sl assms(2) S] by blast
  with i show ?thesis
    by (cases "run_steps S J nu ?ls ?lsc st0 [1..T * J]")
      (auto simp: voter_model_def voter_run_def)
qed

theorem voter_model_returns_witness:
  "valid_IC [[0]] 1 1 (Some 0) \<and> (1::int) \<le> 1 \<and>
   (\<exists>out h'. voter_model [[0]] [Int64] (\<lambda>n. 0) 1 1 1 2 [1] [1] (Some 0) None
                (Some (\<lambda>n. 0)) = Inr (out, h'))"
proof -
  have v: "valid_IC [[0]] 1 1 (Some 0)" by code_simp
  have j: "(1::int) \<le> 1" by simp
  from voter_model_returns[OF v j] v show ?thesis by simp
qed

text \<open>
  C8. The store at the return agrees with the store at the call on every array that
  existed at the call, in particular on the caller's \<open>IC\<close> and \<open>opinion_counts\<close>: the
  function writes only to arrays it has allocated.
\<close>

theorem caller_arrays_unchanged:
  assumes "voter_model h dts fresh S J T nu lsp lsp_c IC oc gen = Inr (out, h')"
  shows "take (length h) h' = h \<and>
         (case IC of None \<Rightarrow> True | Some a \<Rightarrow> a < length h \<longrightarrow> h' ! a = h ! a) \<and>
         (case oc of None \<Rightarrow> True | Some c \<Rightarrow> c < length h \<longrightarrow> h' ! c = h ! c)"
proof -
  let ?g = "case gen of None \<Rightarrow> fresh | Some g \<Rightarrow> g"
  let ?ls = "log_schedule lsp" and ?lsc = "log_schedule lsp_c"
  from assms obtain st0 where
    i: "init_state h dts ?g S J ?ls ?lsc IC oc = Inr st0"
    by (auto simp: voter_model_def voter_run_def split: sum.splits)
  from init_state_frame[OF i] have f0: "take (length h) (heap st0) = h"
    "length h \<le> opinions st0" "length h \<le> length (heap st0)"
    by simp_all
  have run: "voter_run h dts fresh S J T nu lsp lsp_c IC oc gen =
               run_steps S J nu ?ls ?lsc st0 [1..T * J]"
    using i by (simp add: voter_run_def)
  have t: "take (length h) h' = h"
  proof (cases "run_steps S J nu ?ls ?lsc st0 [1..T * J]")
    case (Raise e)
    with assms run show ?thesis by (simp add: voter_model_def)
  next
    case (Return out1 h1)
    with assms run have "h1 = h'" by (simp add: voter_model_def)
    with run_steps_frame[OF f0(2,3), of S J nu ?ls ?lsc "[1..T * J]" st0 out1 h1]
      Return f0(1) show ?thesis by simp
  next
    case (Next st)
    with assms run have "heap st = h'" by (simp add: voter_model_def)
    with run_steps_frame[OF f0(2,3), of S J nu ?ls ?lsc "[1..T * J]" st out h']
      Next f0(1) show ?thesis by simp
  qed
  have "\<forall>a<length h. h' ! a = h ! a"
  proof (intro allI impI)
    fix a assume "a < length h"
    then have "take (length h) h' ! a = h' ! a" by simp
    with t show "h' ! a = h ! a" by simp
  qed
  with t show ?thesis by (simp split: option.splits)
qed

theorem caller_arrays_unchanged_witness:
  "voter_model [[0, 1], [1, 1]] [Int64, Int64] (\<lambda>n. n) 2 2 2 1 [2, 4] [2, 3, 4] (Some 0)
     (Some 1) (Some (\<lambda>n. n div 2)) =
     Inr (([[1, 1], [1, 1], [1, 1], [0, 0]], [2, 2], [0, 1], [0, 1, 3 / 2, 0]),
          [[0, 1], [1, 1], [0, 1], [1, 0], [1, 1], [1, 1]]) \<and>
   take (length [[0, 1], [1, 1 :: int]])
     [[0, 1], [1, 1], [0, 1], [1, 0], [1, 1], [1, 1]] = [[0, 1], [1, 1 :: int]]"
proof -
  have e: "voter_model [[0, 1], [1, 1]] [Int64, Int64] (\<lambda>n. n) 2 2 2 1 [2, 4] [2, 3, 4]
     (Some 0) (Some 1) (Some (\<lambda>n. n div 2)) =
     Inr (([[1, 1], [1, 1], [1, 1], [0, 0]], [2, 2], [0, 1], [0, 1, 3 / 2, 0]),
          [[0, 1], [1, 1], [0, 1], [1, 0], [1, 1], [1, 1]])"
    by code_simp
  from caller_arrays_unchanged[OF e]
  have "take (length [[0, 1], [1, 1 :: int]])
          [[0, 1], [1, 1], [0, 1], [1, 0], [1, 1], [1, 1]] = [[0, 1], [1, 1 :: int]]"
    by (rule conjunct1)
  with e show ?thesis by (rule conjI)
qed

text \<open>
  C10. The claim does not hold for an initial condition in an array of a narrow signed
  dtype. With \<open>IC\<close> the int8 array \<open>[0, 1]\<close>, \<open>S = 200\<close>, \<open>J = 2\<close> and \<open>nu = 1\<close>, the first step
  draws the label 150 and line 91 stores it as \<open>-106\<close>.
\<close>

theorem narrow_dtype_label_counterexample:
  "labels_in 200 [0, 1] \<and>
   (case init_state [[0, 1]] [Int8] (\<lambda>n. 150) 200 2 (log_schedule [2]) (log_schedule [2])
           (Some 0) None of
      Inl e \<Rightarrow> False
    | Inr st0 \<Rightarrow>
        (case run_steps 200 2 1 (log_schedule [2]) (log_schedule [2]) st0 [1] of
           Next st \<Rightarrow>
             heap st ! opinions st = [- 106, 1] \<and> \<not> labels_in 200 (heap st ! opinions st)
         | _ \<Rightarrow> False))"
  by code_simp

text \<open>
  C10, as amended. If the labels of the initial condition lie in \<open>[0, S)\<close> (a drawn
  initial condition always does) and its array has an unsigned dtype or a signed dtype
  that holds \<open>S - 1\<close> (the int64 of a list or of a drawn initial condition does, for
  \<open>S \<le> 2^63\<close>), then after any number of steps of the loop the labels of the population
  lie in \<open>[0, S)\<close>, and so they do after the update of the next step: the update writes a
  label of the population or a draw from \<open>[0, S)\<close>.
\<close>

theorem labels_stay_in_range:
  assumes "init_state h dts g S J ls lsc IC oc = Inr st0"
    and "case IC of None \<Rightarrow> True | Some a \<Rightarrow> a < length h \<and> labels_in S (h ! a)"
    and "dtype_keeps (IC_dtype dts IC) S"
    and "run_steps S J nu ls lsc st0 ts = Next st"
  shows "labels_in S (heap st ! opinions st) \<and>
         (\<forall>st1. update_opinions S J nu st = Inr st1 \<longrightarrow>
                labels_in S (heap st1 ! opinions st1))"
proof -
  from assms(2) have "case IC of None \<Rightarrow> True | Some a \<Rightarrow> labels_in S (h ! a)"
    by (simp split: option.splits)
  from init_state_labels[OF assms(1) this] assms(3)
  have 0: "opinions st0 < length (heap st0)" "labels_in S (heap st0 ! opinions st0)"
    "dtype_keeps (pop_dtype st0) S"
    by simp_all
  from run_steps_labels[OF assms(4) 0] 0(3)
  have "labels_in S (heap st ! opinions st)" "dtype_keeps (pop_dtype st) S" by simp_all
  then show ?thesis using update_opinions_labels by blast
qed

theorem labels_stay_in_range_witness:
  "labels_in 2 [0, 1] \<and> dtype_keeps (IC_dtype [Int8] (Some 0)) 2 \<and>
   (\<exists>st0 st. init_state [[0, 1]] [Int8] (\<lambda>n. n div 2) 2 2 [2, 4] [2, 3, 4] (Some 0) None =
               Inr st0 \<and>
      run_steps 2 2 1 [2, 4] [2, 3, 4] st0 [1, 2, 3] = Next st \<and>
      heap st ! opinions st = [1, 0] \<and> labels_in 2 (heap st ! opinions st))"
proof -
  have l: "labels_in 2 [0, 1]" by code_simp
  have d: "dtype_keeps (IC_dtype [Int8] (Some 0)) 2" by code_simp
  have "case init_state [[0, 1]] [Int8] (\<lambda>n. n div 2) 2 2 [2, 4] [2, 3, 4] (Some 0) None of
          Inl e \<Rightarrow> False
        | Inr st0 \<Rightarrow>
            (case run_steps 2 2 1 [2, 4] [2, 3, 4] st0 [1, 2, 3] of
               Next st \<Rightarrow> heap st ! opinions st = [1, 0] | _ \<Rightarrow> False)"
    by code_simp
  then obtain st0 st where
    i: "init_state [[0, 1]] [Int8] (\<lambda>n. n div 2) 2 2 [2, 4] [2, 3, 4] (Some 0) None =
          Inr st0"
    and r: "run_steps 2 2 1 [2, 4] [2, 3, 4] st0 [1, 2, 3] = Next st"
    and p: "heap st ! opinions st = [1, 0]"
    by (auto split: sum.splits flow.splits)
  have "case Some (0::nat) of None \<Rightarrow> True
        | Some a \<Rightarrow> a < length [[0, 1 :: int]] \<and> labels_in 2 ([[0, 1]] ! a)"
    using l by simp
  from labels_stay_in_range[OF i this d r] i r p show ?thesis using l d by blast
qed

end
